theory Spec2Isabelle
  imports Main "HOL-Library.Word" "HOL-Library.Sublist" "HOL-Library.Multiset"
begin

section \<open>JavaScript strings\<close>

text \<open>
  A JavaScript string is a sequence of 16-bit code units; \<open>length\<close>, \<open>slice\<close>, the regular
  expression classes and \<open>String.fromCharCode\<close> all work on code units.
\<close>

type_synonym jschar = "16 word"
type_synonym jsstring = "jschar list"

definition js :: "string \<Rightarrow> jsstring" where
  "js s = map of_char s"

text \<open>The class \<open>\s\<close> of regular expressions, which is also what \<open>trim\<close> strips.\<close>

definition isSpace :: "jschar \<Rightarrow> bool" where
  "isSpace c = (c \<in> set [0x20, 0x0A, 0x09, 0x0D, 0x0B, 0x0C, 0xA0, 0x1680, 0x2000, 0x2001,
     0x2002, 0x2003, 0x2004, 0x2005, 0x2006, 0x2007, 0x2008, 0x2009, 0x200A, 0x2028, 0x2029,
     0x202F, 0x205F, 0x3000, 0xFEFF])"

text \<open>The class \<open>\d\<close>.\<close>

definition isDigit :: "jschar \<Rightarrow> bool" where
  "isDigit c = (0x30 \<le> c \<and> c \<le> 0x39)"

text \<open>The class \<open>[A-Z]\<close>.\<close>

definition isUpper :: "jschar \<Rightarrow> bool" where
  "isUpper c = (0x41 \<le> c \<and> c \<le> 0x5A)"

text \<open>The line terminators, the code units that \<open>.\<close> does not match.\<close>

definition isLineTerminator :: "jschar \<Rightarrow> bool" where
  "isLineTerminator c = (c \<in> set [0x0A, 0x0D, 0x2028, 0x2029])"

text \<open>\<open>String.prototype.trim\<close>.\<close>

definition trim :: "jsstring \<Rightarrow> jsstring" where
  "trim s = rev (dropWhile isSpace (rev (dropWhile isSpace s)))"

text \<open>\<open>Array.prototype.join\<close> with a separator.\<close>

fun join :: "jsstring \<Rightarrow> jsstring list \<Rightarrow> jsstring" where
  "join sep [] = []"
| "join sep [x] = x"
| "join sep (x # y # ys) = x @ sep @ join sep (y # ys)"

text \<open>\<open>s.startsWith(p)\<close> returning the rest of \<open>s\<close> after \<open>p\<close>.\<close>

fun stripPrefix :: "'a list \<Rightarrow> 'a list \<Rightarrow> 'a list option" where
  "stripPrefix [] s = Some s"
| "stripPrefix (p # ps) [] = None"
| "stripPrefix (p # ps) (c # cs) = (if p = c then stripPrefix ps cs else None)"

text \<open>
  A JavaScript number is a double. The numbers that occur here are the non-negative integral
  ones and \<open>Infinity\<close>, which \<open>parseInt\<close> returns on a long enough run of digits.
\<close>

datatype number = Finite nat | Infinity

text \<open>The number of binary digits of a natural number.\<close>

fun bitLength :: "nat \<Rightarrow> nat" where
  "bitLength n = (if n = 0 then 0 else Suc (bitLength (n div 2)))"

declare bitLength.simps [simp del]

text \<open>
  The Number value for a natural number: the number itself below \<open>2^53\<close>, above it the
  nearest multiple of \<open>2^e\<close> that leaves 53 significant bits, ties to the even one, and
  \<open>Infinity\<close> from \<open>2^1024\<close> on.
\<close>

definition toNumber :: "nat \<Rightarrow> number" where
  "toNumber m =
     (if m < 2 ^ 53 then Finite m
      else
        let e = bitLength m - 53;
            q = m div 2 ^ e;
            r = m mod 2 ^ e;
            v = (if 2 ^ e < 2 * r \<or> (2 * r = 2 ^ e \<and> odd q) then q + 1 else q) * 2 ^ e
        in if 2 ^ 1024 \<le> v then Infinity else Finite v)"

text \<open>The decimal digits of a natural number.\<close>

definition digitChar :: "nat \<Rightarrow> jschar" where
  "digitChar d = of_nat (48 + d)"

fun decimalDigits :: "nat \<Rightarrow> jsstring" where
  "decimalDigits n = (if n < 10 then [digitChar n] else decimalDigits (n div 10) @ [digitChar (n mod 10)])"

declare decimalDigits.simps [simp del]

text \<open>
  \<open>Number::toString\<close>, which a template literal applies to a number. The digits printed
  are those of the decimal \<open>s * 10^j\<close> with the fewest significant digits whose Number value
  is the number printed, the closest one if there are several. \<open>candidatesAt x j\<close> are the
  two multiples of \<open>10^j\<close> around \<open>x\<close>, the closer one first. A decimal of at most 21
  digits is printed in full, a longer one in exponent form.
\<close>

definition candidatesAt :: "nat \<Rightarrow> nat \<Rightarrow> nat list" where
  "candidatesAt x j =
     (let lo = (x div 10 ^ j) * 10 ^ j; hi = lo + 10 ^ j
      in if x - lo < hi - x \<or> (x - lo = hi - x \<and> even (x div 10 ^ j)) then [lo, hi] else [hi, lo])"

definition shortestDecimal :: "nat \<Rightarrow> nat" where
  "shortestDecimal x =
     (case filter (\<lambda>c. toNumber c = Finite x)
             (concat (map (candidatesAt x) (rev [0..<length (decimalDigits x)]))) of
        [] \<Rightarrow> x
      | c # _ \<Rightarrow> c)"

definition exponentForm :: "nat \<Rightarrow> jsstring" where
  "exponentForm c =
     (let ds = decimalDigits c
      in (case rev (dropWhile (\<lambda>d. d = 0x30) (rev ds)) of
            [] \<Rightarrow> []
          | d # fraction \<Rightarrow> d # (if fraction = [] then [] else 0x2E # fraction))
         @ js ''e+'' @ decimalDigits (length ds - 1))"

fun numberToString :: "number \<Rightarrow> jsstring" where
  "numberToString Infinity = js ''Infinity''"
| "numberToString (Finite x) =
     (let c = shortestDecimal x in if c < 10 ^ 21 then decimalDigits c else exponentForm c)"

text \<open>The rendering by a template literal of the number whose value is \<open>n\<close>.\<close>

definition numToString :: "nat \<Rightarrow> jsstring" where
  "numToString n = numberToString (toNumber n)"

text \<open>\<open>parseInt(ds, 10)\<close> on a string of digits: the Number value for the integer written.\<close>

definition digitVal :: "jschar \<Rightarrow> nat" where
  "digitVal c = unat c - 48"

definition parseInt :: "jsstring \<Rightarrow> number" where
  "parseInt ds = toNumber (foldl (\<lambda>a c. 10 * a + digitVal c) 0 ds)"

text \<open>A thrown \<open>Error\<close> or \<open>TypeError\<close>, with its message.\<close>

datatype error = Error jsstring | TypeError jsstring

fun errorMessage :: "error \<Rightarrow> jsstring" where
  "errorMessage (Error m) = m"
| "errorMessage (TypeError m) = m"

section \<open>Token estimate (src/lib/text-processing.ts)\<close>

text \<open>
  \<open>estimateTokens(text) = Math.ceil(text.length / 3.5)\<close>, that is the ceiling of
  \<open>2 * length / 7\<close>.
\<close>

definition estimateTokens :: "jsstring \<Rightarrow> int" where
  "estimateTokens text = (2 * int (length text) + 6) div 7"

section \<open>Text normalizer (src/lib/text-processing.ts)\<close>

text \<open>
  \<open>text.replace(regex, replacement)\<close> with the \<open>g\<close> flag, for a regular expression
  given by \<open>matchAt\<close>: the length of its match at the start of the rest of the input, if
  it matches there. The input is scanned from left to right; a match is replaced and the
  scan goes on behind it. None of the expressions below matches the empty string.
\<close>

function replaceAll :: "(jsstring \<Rightarrow> nat option) \<Rightarrow> (jsstring \<Rightarrow> jsstring) \<Rightarrow> jsstring \<Rightarrow> jsstring" where
  "replaceAll matchAt replacement [] = []"
| "replaceAll matchAt replacement (c # cs) =
     (case matchAt (c # cs) of
        None \<Rightarrow> c # replaceAll matchAt replacement cs
      | Some n \<Rightarrow> replacement (take n (c # cs)) @ replaceAll matchAt replacement (drop (n - 1) cs))"
  by pat_completeness auto
termination
  by (relation "measure (\<lambda>(m, r, s). length s)") auto

text \<open>
  Matching without regard to case (the \<open>i\<close> flag) against a pattern of lower-case
  ASCII letters and signs: only the letters \<open>A-Z\<close> are folded.
\<close>

definition toLowerAscii :: "jschar \<Rightarrow> jschar" where
  "toLowerAscii c = (if isUpper c then c + 0x20 else c)"

fun stripPrefixCI :: "jsstring \<Rightarrow> jsstring \<Rightarrow> jsstring option" where
  "stripPrefixCI [] s = Some s"
| "stripPrefixCI (p # ps) [] = None"
| "stripPrefixCI (p # ps) (c # cs) = (if p = toLowerAscii c then stripPrefixCI ps cs else None)"

text \<open>The class \<open>\w\<close>, which decides the word boundary \<open>\b\<close>.\<close>

definition isWordChar :: "jschar \<Rightarrow> bool" where
  "isWordChar c = (isDigit c \<or> isUpper c \<or> (0x61 \<le> c \<and> c \<le> 0x7A) \<or> c = 0x5F)"

text \<open>
  The number of code units up to the end of the first occurrence of a closing pattern of
  \<open>n\<close> code units, recognised by \<open>strip\<close>.
\<close>

fun findEnd :: "(jsstring \<Rightarrow> jsstring option) \<Rightarrow> nat \<Rightarrow> jsstring \<Rightarrow> nat option" where
  "findEnd strip n [] = None"
| "findEnd strip n (c # cs) =
     (if strip (c # cs) \<noteq> None then Some n else map_option Suc (findEnd strip n cs))"

text \<open>
  \<open>/<script\b[^<]*(?:(?!<\/script>)<[^<]*)*<\/script>/gi\<close> and the same for
  \<open>style\<close>: the opening name followed by a word boundary, then everything up to the first
  closing tag. The repeated group steps from one \<open><\<close> to the next and cannot step over a
  closing tag, so the match ends at the first one; without a closing tag there is no match.
\<close>

definition matchElement :: "jsstring \<Rightarrow> jsstring \<Rightarrow> nat option" where
  "matchElement name s =
     (case stripPrefixCI (js ''<'' @ name) s of
        None \<Rightarrow> None
      | Some r \<Rightarrow>
          if (case r of [] \<Rightarrow> False | c # _ \<Rightarrow> isWordChar c) then None
          else (case findEnd (stripPrefixCI (js ''</'' @ name @ js ''>'')) (length name + 3) r of
                  None \<Rightarrow> None
                | Some k \<Rightarrow> Some (1 + length name + k)))"

text \<open>\<open>/<!--[\s\S]*?-->/g\<close>: from \<open><!--\<close> to the first \<open>-->\<close> behind it.\<close>

definition matchComment :: "jsstring \<Rightarrow> nat option" where
  "matchComment s =
     (case stripPrefix (js ''<!--'') s of
        None \<Rightarrow> None
      | Some r \<Rightarrow> (case findEnd (stripPrefix (js ''-->'')) 3 r of
                      None \<Rightarrow> None
                    | Some k \<Rightarrow> Some (4 + k)))"

text \<open>
  \<open>/<[^>]+>/g\<close>: a \<open><\<close>, one or more code units other than \<open>>\<close>, and the
  \<open>>\<close> that ends them.
\<close>

definition matchTag :: "jsstring \<Rightarrow> nat option" where
  "matchTag s =
     (case s of
        [] \<Rightarrow> None
      | c # r \<Rightarrow>
          if c \<noteq> 0x3C then None
          else (let inside = takeWhile (\<lambda>x. x \<noteq> 0x3E) r
                in if inside = [] \<or> length inside = length r then None
                   else Some (length inside + 2)))"

text \<open>A literal pattern, as \<open>new RegExp(entity, "g")\<close> is for every entity of the table.\<close>

definition matchLiteral :: "jsstring \<Rightarrow> jsstring \<Rightarrow> nat option" where
  "matchLiteral p s = (case stripPrefix p s of None \<Rightarrow> None | Some r \<Rightarrow> Some (length p))"

text \<open>
  \<open>/&#(\d+);/g\<close>, replaced by \<open>String.fromCharCode(parseInt(num, 10))\<close>, the code
  unit of the number modulo \<open>2^16\<close>, and the code unit 0 for \<open>Infinity\<close>.
\<close>

definition matchNumericEntity :: "jsstring \<Rightarrow> nat option" where
  "matchNumericEntity s =
     (case stripPrefix (js ''&#'') s of
        None \<Rightarrow> None
      | Some r \<Rightarrow>
          (let num = takeWhile isDigit r
           in if num = [] then None
              else (case drop (length num) r of
                      [] \<Rightarrow> None
                    | c # _ \<Rightarrow> if c = 0x3B then Some (length num + 3) else None)))"

definition numericEntityChar :: "jsstring \<Rightarrow> jsstring" where
  "numericEntityChar m =
     (case parseInt (take (length m - 3) (drop 2 m)) of
        Finite v \<Rightarrow> [of_nat v]
      | Infinity \<Rightarrow> [0])"

text \<open>The table of \<open>decodeHTMLEntities\<close>, in the order of the source.\<close>

definition entities :: "(jsstring \<times> jsstring) list" where
  \<open>entities =
     [(js ''&amp;'', js ''&''),
      (js ''&lt;'', js ''<''),
      (js ''&gt;'', js ''>''),
      (js ''&quot;'', js ''"''),
      (js ''&#39;'', [0x27]),
      (js ''&apos;'', [0x27]),
      (js ''&nbsp;'', js '' ''),
      (js ''&mdash;'', [0x2014]),
      (js ''&ndash;'', [0x2013]),
      (js ''&hellip;'', js ''...''),
      (js ''&rsquo;'', [0x27]),
      (js ''&lsquo;'', [0x27]),
      (js ''&rdquo;'', js ''"''),
      (js ''&ldquo;'', js ''"'')]\<close>

definition decodeHTMLEntities :: "jsstring \<Rightarrow> jsstring" where
  "decodeHTMLEntities txt =
     (let decoded = foldl (\<lambda>d (entity, char). replaceAll (matchLiteral entity) (\<lambda>m. char) d) txt entities
      in replaceAll matchNumericEntity numericEntityChar decoded)"

text \<open>\<open>/\s+/g\<close> and \<open>/\n{3,}/g\<close>.\<close>

definition matchSpaces :: "jsstring \<Rightarrow> nat option" where
  "matchSpaces s = (let n = length (takeWhile isSpace s) in if n = 0 then None else Some n)"

definition matchNewlines :: "jsstring \<Rightarrow> nat option" where
  "matchNewlines s =
     (let n = length (takeWhile (\<lambda>c. c = 0x0A) s) in if n < 3 then None else Some n)"

text \<open>\<open>cleanHTML\<close>.\<close>

definition cleanHTML :: "jsstring \<Rightarrow> jsstring" where
  "cleanHTML html =
     (if html = [] then []
      else
        (let t1 = replaceAll (matchElement (js ''script'')) (\<lambda>m. []) html;
             t2 = replaceAll (matchElement (js ''style'')) (\<lambda>m. []) t1;
             t3 = replaceAll matchComment (\<lambda>m. []) t2;
             t4 = replaceAll matchTag (\<lambda>m. js '' '') t3;
             t5 = decodeHTMLEntities t4;
             t6 = trim (replaceAll matchSpaces (\<lambda>m. js '' '') t5)
         in replaceAll matchNewlines (\<lambda>m. [0x0A, 0x0A]) t6))"

section \<open>Chunker (src/lib/text-processing.ts)\<close>

record ChunkConfig =
  maxTokens :: "int option"
  overlap :: "int option"
  preserveSentences :: "bool option"

definition space :: jsstring where
  "space = [0x20]"

text \<open>The class \<open>[.!?]\<close>.\<close>

definition isSentenceEnd :: "jschar \<Rightarrow> bool" where
  "isSentenceEnd c = (c \<in> set [0x2E, 0x21, 0x3F])"

text \<open>
  \<open>text.split(/(?<=[.!?])\s+(?=[A-Z])/g)\<close>. A separator starts right after one of
  \<open>. ! ?\<close>, is the whole run of white space that follows, and must be followed by an
  upper-case letter. \<open>afterEnd\<close> says that the code unit before the current position is one
  of \<open>. ! ?\<close>; \<open>cur\<close> is the piece collected since the last separator.
\<close>

function splitAtBoundaries :: "bool \<Rightarrow> jsstring \<Rightarrow> jsstring \<Rightarrow> jsstring list" where
  "splitAtBoundaries afterEnd cur [] = [cur]"
| "splitAtBoundaries afterEnd cur (c # cs) =
     (if afterEnd \<and> isSpace c \<and> (case dropWhile isSpace cs of [] \<Rightarrow> False | u # _ \<Rightarrow> isUpper u)
      then cur # splitAtBoundaries False [] (dropWhile isSpace cs)
      else splitAtBoundaries (isSentenceEnd c) (cur @ [c]) cs)"
  by pat_completeness auto
termination
  by (relation "measure (\<lambda>(a, cur, rest). length rest)")
     (auto simp: less_Suc_eq_le length_dropWhile_le)

text \<open>\<open>splitIntoSentences\<close>: split, trim every piece, drop the empty ones.\<close>

definition splitIntoSentences :: "jsstring \<Rightarrow> jsstring list" where
  "splitIntoSentences text =
     filter (\<lambda>s. length s > 0) (map trim (splitAtBoundaries False [] text))"

text \<open>
  \<open>text.split(/\s+/)\<close>: the pieces between the maximal runs of white space; leading or
  trailing white space gives an empty first or last piece, and the empty text gives one
  empty piece.
\<close>

function splitWhitespace :: "jsstring \<Rightarrow> jsstring \<Rightarrow> jsstring list" where
  "splitWhitespace cur [] = [cur]"
| "splitWhitespace cur (c # cs) =
     (if isSpace c then cur # splitWhitespace [] (dropWhile isSpace cs)
      else splitWhitespace (cur @ [c]) cs)"
  by pat_completeness auto
termination
  by (relation "measure (\<lambda>(cur, rest). length rest)")
     (auto simp: less_Suc_eq_le length_dropWhile_le)

text \<open>
  \<open>Array.prototype.slice(start, end)\<close>: a negative index counts from the end of the
  array, and both indices are clamped to the array.
\<close>

definition relativeIndex :: "int \<Rightarrow> nat \<Rightarrow> nat" where
  "relativeIndex k len = (if k < 0 then nat (max (int len + k) 0) else min (nat k) len)"

definition jsSlice :: "'a list \<Rightarrow> int \<Rightarrow> int \<Rightarrow> 'a list" where
  "jsSlice xs start end =
     (let s = relativeIndex start (length xs); e = relativeIndex end (length xs)
      in take (e - s) (drop s xs))"

text \<open>
  The loop of \<open>chunkByWords\<close>:
  \<open>for (let i = 0; i < words.length; i += (maxWords - overlapWords))\<close>.
  Nothing in the source makes the step positive, so the loop may run forever; the value
  \<open>None\<close> stands for that.
\<close>

partial_function (option) chunkByWordsLoop ::
  "jsstring list \<Rightarrow> int \<Rightarrow> int \<Rightarrow> int \<Rightarrow> jsstring list \<Rightarrow> jsstring list option" where
  "chunkByWordsLoop words maxWords overlapWords i chunks =
     (if i < int (length words) then
        (let chunk = join space (jsSlice words i (i + maxWords))
         in chunkByWordsLoop words maxWords overlapWords (i + (maxWords - overlapWords))
              (if length (trim chunk) > 0 then chunks @ [chunk] else chunks))
      else Some chunks)"

declare chunkByWordsLoop.simps [code]

text \<open>
  \<open>chunkByWords\<close>; \<open>Math.floor(n * 0.75)\<close> on an integer \<open>n\<close> is \<open>(n * 3) div 4\<close>.
\<close>

definition chunkByWords :: "jsstring \<Rightarrow> int \<Rightarrow> int \<Rightarrow> jsstring list option" where
  "chunkByWords text maxTok ovl =
     (let words = splitWhitespace [] text;
          maxWords = (maxTok * 3) div 4;
          overlapWords = (ovl * 3) div 4
      in chunkByWordsLoop words maxWords overlapWords 0 [])"

text \<open>
  \<open>getOverlapSentences\<close>: walk the sentences from the last one backwards, putting each in
  front of the result, and stop at the first one that would take the total over
  \<open>overlapTokens\<close>. \<open>overlapLoop\<close> is given the sentences not yet visited, last one first.
\<close>

fun overlapLoop :: "int \<Rightarrow> jsstring list \<Rightarrow> jsstring list \<Rightarrow> int \<Rightarrow> jsstring list" where
  "overlapLoop overlapTokens [] acc tokens = acc"
| "overlapLoop overlapTokens (s # earlier) acc tokens =
     (let sentenceTokens = estimateTokens s
      in if tokens + sentenceTokens > overlapTokens then acc
         else overlapLoop overlapTokens earlier (s # acc) (tokens + sentenceTokens))"

definition getOverlapSentences :: "jsstring list \<Rightarrow> int \<Rightarrow> jsstring list" where
  "getOverlapSentences sentences overlapTokens = overlapLoop overlapTokens (rev sentences) [] 0"

text \<open>
  The loop over the sentences in \<open>chunkText\<close>. The state is \<open>(chunks, currentChunk,
  currentTokens)\<close>.
\<close>

type_synonym chunkState = "jsstring list \<times> jsstring list \<times> int"

fun sentenceLoop :: "int \<Rightarrow> int \<Rightarrow> jsstring list \<Rightarrow> chunkState \<Rightarrow> chunkState option" where
  "sentenceLoop maxTok ovl [] st = Some st"
| "sentenceLoop maxTok ovl (sentence # rest) (chunks, currentChunk, currentTokens) =
     (let sentenceTokens = estimateTokens sentence in
      if sentenceTokens > maxTok then
        (let (chunks1, currentChunk1, currentTokens1) =
               (if length currentChunk > 0 then (chunks @ [join space currentChunk], [], 0)
                else (chunks, currentChunk, currentTokens))
         in case chunkByWords sentence maxTok ovl of
              None \<Rightarrow> None
            | Some wordChunks \<Rightarrow>
                sentenceLoop maxTok ovl rest (chunks1 @ wordChunks, currentChunk1, currentTokens1))
      else if currentTokens + sentenceTokens > maxTok \<and> length currentChunk > 0 then
        (let overlapSentences = getOverlapSentences currentChunk ovl
         in sentenceLoop maxTok ovl rest
              (chunks @ [join space currentChunk], overlapSentences @ [sentence],
               estimateTokens (join space overlapSentences) + sentenceTokens))
      else sentenceLoop maxTok ovl rest
             (chunks, currentChunk @ [sentence], currentTokens + sentenceTokens))"

text \<open>
  The defaults of the configuration: 800 tokens, 200 tokens of overlap, sentences
  preserved.
\<close>

definition configMaxTokens :: "ChunkConfig \<Rightarrow> int" where
  "configMaxTokens config = (case maxTokens config of None \<Rightarrow> 800 | Some m \<Rightarrow> m)"

definition configOverlap :: "ChunkConfig \<Rightarrow> int" where
  "configOverlap config = (case overlap config of None \<Rightarrow> 200 | Some v \<Rightarrow> v)"

definition configPreserveSentences :: "ChunkConfig \<Rightarrow> bool" where
  "configPreserveSentences config = (case preserveSentences config of None \<Rightarrow> True | Some b \<Rightarrow> b)"

text \<open>\<open>chunkText\<close>.\<close>

definition chunkText :: "jsstring \<Rightarrow> ChunkConfig \<Rightarrow> jsstring list option" where
  "chunkText text config =
     (let maxTok = configMaxTokens config;
          ovl = configOverlap config
      in if text = [] \<or> length (trim text) = 0 then Some []
         else if estimateTokens text \<le> maxTok then Some [text]
         else
           (case (if configPreserveSentences config then
                    (case sentenceLoop maxTok ovl (splitIntoSentences text) ([], [], 0) of
                       None \<Rightarrow> None
                     | Some (chunks, currentChunk, currentTokens) \<Rightarrow>
                         Some (if length currentChunk > 0 then chunks @ [join space currentChunk]
                               else chunks))
                  else chunkByWords text maxTok ovl) of
              None \<Rightarrow> None
            | Some chunks \<Rightarrow> Some (filter (\<lambda>chunk. length (trim chunk) > 0) chunks)))"

definition defaultConfig :: ChunkConfig where
  "defaultConfig = \<lparr>maxTokens = None, overlap = None, preserveSentences = None\<rparr>"

text \<open>
  \<open>prepareArticle\<close>: the HTML is cleaned, the title and the cleaned content are joined by a
  blank line and chunked.
\<close>

record PreparedArticle =
  pa_id :: jsstring
  pa_title :: jsstring
  pa_url :: jsstring
  pa_content :: jsstring
  pa_chunks :: "jsstring list"
  pa_totalTokens :: int

definition prepareArticle ::
  "jsstring \<Rightarrow> jsstring \<Rightarrow> jsstring \<Rightarrow> jsstring \<Rightarrow> ChunkConfig \<Rightarrow> PreparedArticle option" where
  "prepareArticle aid ttl u htmlContent chunkConfig =
     (let cleanedContent = cleanHTML htmlContent;
          fullText = ttl @ [0x0A, 0x0A] @ cleanedContent
      in case chunkText fullText chunkConfig of
           None \<Rightarrow> None
         | Some chunks \<Rightarrow>
             Some \<lparr>pa_id = aid, pa_title = ttl, pa_url = u, pa_content = cleanedContent,
               pa_chunks = chunks, pa_totalTokens = estimateTokens fullText\<rparr>)"




section \<open>Summarizer (src/unnamed/part_007)\<close>

record SummaryResult =
  summary :: jsstring
  originalTokens :: int
  summaryTokens :: int

text \<open>
  The chat-completion call of \<open>summarizeText\<close>, as a function of the text and of
  \<open>max_tokens\<close> (the system prompt, the model and the temperature are constants): it
  throws, or returns the content of the first choice, which may be null.
\<close>

type_synonym chatModel = "jsstring \<Rightarrow> int \<Rightarrow> error + jsstring option"

text \<open>A request sent to the model: the text and \<open>max_tokens\<close>.\<close>

type_synonym modelCall = "jsstring \<times> int"

text \<open>
  \<open>summarizeText\<close>: one request; \<open>content || text\<close> gives the text back when the
  content is null or empty. The second component lists the requests made.
\<close>

definition summarizeText :: "chatModel \<Rightarrow> jsstring \<Rightarrow> int \<Rightarrow> (error + jsstring) \<times> modelCall list" where
  "summarizeText model txt maxTok =
     ((case model txt maxTok of
         Inl e \<Rightarrow> Inl e
       | Inr None \<Rightarrow> Inr txt
       | Inr (Some c) \<Rightarrow> Inr (if c = [] then txt else c)),
      [(txt, maxTok)])"

text \<open>
  \<open>Promise.all\<close> on results already in the order of the promises: the list of the values
  when all are fulfilled, a rejection otherwise. The rejection carries the error of the first
  rejected promise of the list; which promise is rejected first in time is not modelled, and
  the callers use only that there is a rejection.
\<close>

fun promiseAll :: "(error + 'a) list \<Rightarrow> error + 'a list" where
  "promiseAll [] = Inr []"
| "promiseAll (Inl e # rs) = Inl e"
| "promiseAll (Inr x # rs) = (case promiseAll rs of Inl e \<Rightarrow> Inl e | Inr xs \<Rightarrow> Inr (x # xs))"

text \<open>\<open>String.prototype.lastIndexOf\<close> for a single code unit; \<open>-1\<close> when it is absent.\<close>

definition lastIndexOf :: "jsstring \<Rightarrow> jschar \<Rightarrow> int" where
  "lastIndexOf s c =
     (if c \<in> set s then int (length s) - 1 - int (length (takeWhile (\<lambda>x. x \<noteq> c) (rev s)))
      else - 1)"

text \<open>
  \<open>truncateToTokenLimit\<close>. \<open>Math.floor(maxTokens * 3.5)\<close> is \<open>(maxTokens * 7) div 2\<close>;
  the test \<open>lastPeriod > maxChars * 0.8\<close> is \<open>5 * lastPeriod > 4 * maxChars\<close> (for the
  only call, with 6000 tokens, the product \<open>21000 * 0.8\<close> is exactly 16800 in floating
  point too).
\<close>

definition truncateToTokenLimit :: "jsstring \<Rightarrow> int \<Rightarrow> jsstring" where
  "truncateToTokenLimit txt maxTok =
     (if estimateTokens txt \<le> maxTok then txt
      else
        (let maxChars = (maxTok * 7) div 2;
             truncated = jsSlice txt 0 maxChars;
             lastPeriod = lastIndexOf truncated 0x2E
         in if 5 * lastPeriod > 4 * maxChars then jsSlice truncated 0 (lastPeriod + 1)
            else truncated @ js ''...''))"

text \<open>
  \<open>twoStageSummarization\<close>: the chunks are summarized by requests that are all sent
  (\<open>chunks.map\<close> starts every call), then the joined summaries are condensed. \<open>None\<close>
  stands for a call of \<open>chunkText\<close> that does not return.
\<close>

definition twoStageSummarization ::
  "chatModel \<Rightarrow> jsstring \<Rightarrow> int \<Rightarrow> ((error + SummaryResult) \<times> modelCall list) option" where
  "twoStageSummarization model txt maxOutputTokens =
     (case chunkText txt \<lparr>maxTokens = Some 6000, overlap = Some 200, preserveSentences = Some True\<rparr> of
        None \<Rightarrow> None
      | Some chunks \<Rightarrow>
          (let answers = map (\<lambda>chunk. summarizeText model chunk 500) chunks;
               calls = concat (map snd answers)
           in case promiseAll (map fst answers) of
                Inl e \<Rightarrow> Some (Inl e, calls)
              | Inr chunkSummaries \<Rightarrow>
                  (let mergedSummaries = join [0x0A, 0x0A] chunkSummaries;
                       (final, finalCalls) = summarizeText model mergedSummaries maxOutputTokens
                   in case final of
                        Inl e \<Rightarrow> Some (Inl e, calls @ finalCalls)
                      | Inr finalSummary \<Rightarrow>
                          Some (Inr \<lparr>summary = finalSummary, originalTokens = estimateTokens txt,
                                  summaryTokens = estimateTokens finalSummary\<rparr>,
                                calls @ finalCalls))))"

text \<open>
  The \<open>try\<close> block of \<open>summarizeChatMessage\<close>, entered for a message of more than 6000
  estimated tokens: two stages above 20000 tokens, a single request otherwise.
\<close>

definition summarizeAttempt ::
  "chatModel \<Rightarrow> jsstring \<Rightarrow> int \<Rightarrow> ((error + SummaryResult) \<times> modelCall list) option" where
  "summarizeAttempt model message maxOutputTokens =
     (if estimateTokens message > 20000 then twoStageSummarization model message maxOutputTokens
      else
        (let (res, calls) = summarizeText model message maxOutputTokens
         in case res of
              Inl e \<Rightarrow> Some (Inl e, calls)
            | Inr s \<Rightarrow>
                Some (Inr \<lparr>summary = s, originalTokens = estimateTokens message,
                        summaryTokens = estimateTokens s\<rparr>, calls)))"

text \<open>
  \<open>summarizeChatMessage\<close>; \<open>maxOutputTokens\<close> defaults to 2000. The \<open>catch\<close> turns
  any error of the \<open>try\<close> block into the truncation fallback.
\<close>

definition summarizeChatMessage ::
  "chatModel \<Rightarrow> jsstring \<Rightarrow> int option \<Rightarrow> ((error + SummaryResult) \<times> modelCall list) option" where
  "summarizeChatMessage model message maxOutputTokensArg =
     (let maxOutputTokens = (case maxOutputTokensArg of None \<Rightarrow> 2000 | Some n \<Rightarrow> n);
          origTokens = estimateTokens message
      in if origTokens \<le> 6000 then
           Some (Inr \<lparr>summary = message, originalTokens = origTokens, summaryTokens = origTokens\<rparr>, [])
         else
           (case summarizeAttempt model message maxOutputTokens of
              None \<Rightarrow> None
            | Some (Inr r, calls) \<Rightarrow> Some (Inr r, calls)
            | Some (Inl e, calls) \<Rightarrow>
                (let truncated = truncateToTokenLimit message 6000
                 in Some (Inr \<lparr>summary = truncated, originalTokens = origTokens,
                            summaryTokens = estimateTokens truncated\<rparr>, calls))))"

section \<open>Embeddings (src/unnamed/part_005, imported as embeddings)\<close>

text \<open>
  The embeddings endpoint is called with one text or with a list of texts; it throws or
  returns \<open>response.data\<close>, here the list of the embeddings it holds.
\<close>

datatype embedInput = Single jsstring | Batch "jsstring list"

type_synonym 'v embedProvider = "embedInput \<Rightarrow> error + 'v list"

text \<open>\<open>s.includes(p)\<close>.\<close>

fun jsIncludes :: "jsstring \<Rightarrow> jsstring \<Rightarrow> bool" where
  "jsIncludes [] p = (p = [])"
| "jsIncludes (c # cs) p = (stripPrefix p (c # cs) \<noteq> None \<or> jsIncludes cs p)"

text \<open>
  The retry loop of \<open>generateEmbedding\<close>, with the number of attempts left and the last
  error. An error whose message includes \<open>invalid\<close> is thrown again at once; the waiting
  between attempts is not modelled.
\<close>

fun generateEmbeddingLoop ::
  "'v embedProvider \<Rightarrow> jsstring \<Rightarrow> nat \<Rightarrow> nat \<Rightarrow> error option \<Rightarrow> error + 'v" where
  "generateEmbeddingLoop create txt retries 0 lastError =
     Inl (Error (js ''Failed to generate embedding after '' @ numToString retries @
       js '' retries: '' @ (case lastError of None \<Rightarrow> js ''undefined'' | Some e \<Rightarrow> errorMessage e)))"
| "generateEmbeddingLoop create txt retries (Suc left) lastError =
     (case (case create (Single txt) of
              Inl e \<Rightarrow> Inl e
            | Inr [] \<Rightarrow> Inl (Error (js ''No embedding returned from OpenAI API''))
            | Inr (embedding # _) \<Rightarrow> Inr embedding) of
        Inr embedding \<Rightarrow> Inr embedding
      | Inl e \<Rightarrow>
          if jsIncludes (errorMessage e) (js ''invalid'') then Inl e
          else generateEmbeddingLoop create txt retries left (Some e))"

definition generateEmbedding :: "'v embedProvider \<Rightarrow> jsstring \<Rightarrow> nat \<Rightarrow> error + 'v" where
  "generateEmbedding create txt retries =
     (if txt = [] \<or> length (trim txt) = 0 then
        Inl (Error (js ''Cannot generate embedding for empty text''))
      else generateEmbeddingLoop create txt retries (Suc retries) None)"

definition embedQuery :: "'v embedProvider \<Rightarrow> jsstring \<Rightarrow> error + 'v" where
  "embedQuery create query = generateEmbedding create query 3"

record BatchEmbeddingOptions =
  batchSize :: "int option"
  concurrency :: "int option"

definition optBatchSize :: "BatchEmbeddingOptions \<Rightarrow> int" where
  "optBatchSize options = (case batchSize options of None \<Rightarrow> 100 | Some n \<Rightarrow> n)"

definition optConcurrency :: "BatchEmbeddingOptions \<Rightarrow> int" where
  "optConcurrency options = (case concurrency options of None \<Rightarrow> 5 | Some n \<Rightarrow> n)"

text \<open>The texts that are not blank, each with its index in the input.\<close>

definition isBlank :: "jsstring \<Rightarrow> bool" where
  "isBlank t = (t = [] \<or> length (trim t) = 0)"

definition validTexts :: "jsstring list \<Rightarrow> (nat \<times> jsstring) list" where
  "validTexts texts = filter (\<lambda>(index, t). \<not> isBlank t) (enumerate 0 texts)"

text \<open>
  \<open>for (let i = 0; i < validTexts.length; i += batchSize)
  batches.push(validTexts.slice(i, i + batchSize))\<close>. Nothing makes \<open>batchSize\<close>
  positive; \<open>None\<close> stands for a loop that does not end.
\<close>

partial_function (option) batchLoop ::
  "'a list \<Rightarrow> int \<Rightarrow> int \<Rightarrow> 'a list list \<Rightarrow> 'a list list option" where
  "batchLoop xs step i batches =
     (if i < int (length xs) then batchLoop xs step (i + step) (batches @ [jsSlice xs i (i + step)])
      else Some batches)"

declare batchLoop.simps [code]

text \<open>
  One batch: a single request for all its texts, each embedding tagged with the index of its
  text; when the request throws, or \<open>response.data\<close> is too short, every text of the batch
  is embedded on its own by \<open>generateEmbedding\<close>.
\<close>

definition processBatch ::
  "'v embedProvider \<Rightarrow> (nat \<times> jsstring) list \<Rightarrow> error + (nat \<times> 'v) list" where
  "processBatch create batch =
     (case (case create (Batch (map snd batch)) of
              Inl e \<Rightarrow> Inl e
            | Inr data \<Rightarrow>
                if length data < length batch then
                  Inl (TypeError (js ''Cannot read properties of undefined''))
                else Inr (map (\<lambda>((index, t), embedding). (index, embedding)) (zip batch data))) of
        Inr tagged \<Rightarrow> Inr tagged
      | Inl e \<Rightarrow>
          promiseAll (map (\<lambda>(index, t).
              case generateEmbedding create t 3 of
                Inl e \<Rightarrow> Inl e
              | Inr embedding \<Rightarrow> Inr (index, embedding)) batch))"

text \<open>
  The loop over the groups of at most \<open>concurrency\<close> batches. The batches of a group run
  concurrently and \<open>Promise.all\<close> gives their results in the order of the batches. The
  state is \<open>allEmbeddings\<close>, \<open>completed\<close> and the reports made to \<open>onProgress\<close>.
\<close>

partial_function (option) groupLoop ::
  "'v embedProvider \<Rightarrow> (nat \<times> jsstring) list list \<Rightarrow> int \<Rightarrow> nat \<Rightarrow> int \<Rightarrow>
   (nat \<times> 'v) list \<Rightarrow> nat \<Rightarrow> (nat \<times> nat) list \<Rightarrow>
   (error + (nat \<times> 'v) list \<times> (nat \<times> nat) list) option" where
  "groupLoop create batches conc totalValid i allEmbeddings completed progress =
     (if i < int (length batches) then
        (let batchGroup = jsSlice batches i (i + conc)
         in case promiseAll (map (processBatch create) batchGroup) of
              Inl e \<Rightarrow> Some (Inl e)
            | Inr batchResults \<Rightarrow>
                (let completed1 = completed + sum_list (map length batchGroup)
                 in groupLoop create batches conc totalValid (i + conc)
                      (allEmbeddings @ concat batchResults) completed1
                      (progress @ [(completed1, totalValid)])))
      else Some (Inr (allEmbeddings, progress)))"

declare groupLoop.simps [code]

text \<open>\<open>allEmbeddings\<close> as it stands before the final sort.\<close>

definition batchTagged ::
  "'v embedProvider \<Rightarrow> jsstring list \<Rightarrow> BatchEmbeddingOptions \<Rightarrow>
   (error + (nat \<times> 'v) list \<times> (nat \<times> nat) list) option" where
  "batchTagged create texts options =
     (if length texts = 0 then Some (Inr ([], []))
      else
        (let valid = validTexts texts
         in case batchLoop valid (optBatchSize options) 0 [] of
              None \<Rightarrow> None
            | Some batches \<Rightarrow>
                groupLoop create batches (optConcurrency options) (length valid) 0 [] 0 []))"

text \<open>
  \<open>allEmbeddings.sort((a, b) => a.index - b.index)\<close>, a stable sort on the index, then
  the embeddings alone.
\<close>

definition sortByIndex :: "(nat \<times> 'v) list \<Rightarrow> 'v list" where
  "sortByIndex allEmbeddings = map snd (sort_key fst allEmbeddings)"

text \<open>
  \<open>batchGenerateEmbeddings\<close>: the embeddings, with the reports made to \<open>onProgress\<close>.
\<close>

definition batchGenerateEmbeddings ::
  "'v embedProvider \<Rightarrow> jsstring list \<Rightarrow> BatchEmbeddingOptions \<Rightarrow>
   (error + 'v list \<times> (nat \<times> nat) list) option" where
  "batchGenerateEmbeddings create texts options =
     (case batchTagged create texts options of
        None \<Rightarrow> None
      | Some (Inl e) \<Rightarrow> Some (Inl e)
      | Some (Inr (allEmbeddings, progress)) \<Rightarrow> Some (Inr (sortByIndex allEmbeddings, progress)))"

text \<open>
  A provider agrees with a function \<open>f\<close> from texts to vectors when every answer it gives
  is what \<open>f\<close> gives: for a batch, \<open>response.data\<close> is \<open>f\<close> on each text in order;
  for a single text, \<open>response.data[0]\<close>, if there is one, is \<open>f\<close> of the text.
\<close>

definition agrees :: "'v embedProvider \<Rightarrow> (jsstring \<Rightarrow> 'v) \<Rightarrow> bool" where
  "agrees create f =
     ((\<forall>ts vs. create (Batch ts) = Inr vs \<longrightarrow> vs = map f ts) \<and>
      (\<forall>t vs. create (Single t) = Inr vs \<longrightarrow> vs = [] \<or> hd vs = f t))"

section \<open>Vector identifiers (src/unnamed/part_006, imported as pinecone)\<close>

text \<open>\<open>buildVectorId\<close>: the template \<open>article-${articleId}-chunk-${chunkIndex}\<close>.\<close>

definition buildVectorId :: "jsstring \<Rightarrow> nat \<Rightarrow> jsstring" where
  "buildVectorId articleId chunkIndex =
     js ''article-'' @ articleId @ js ''-chunk-'' @ numToString chunkIndex"

record ParsedVectorId =
  pv_articleId :: jsstring
  pv_chunkIndex :: number

text \<open>
  \<open>parseVectorId\<close> matches \<open>/^article-(.+)-chunk-(\d+)$/\<close>. After the literal prefix the
  greedy group \<open>(.+)\<close> first takes the longest run of code units that are not line
  terminators and then gives them back one at a time, down to one code unit, until the rest
  of the input is \<open>-chunk-\<close> followed by one or more digits up to the end of the input.
  \<open>backtrack k r\<close> tries the group lengths \<open>k, k - 1, ..., 1\<close> on the input \<open>r\<close>.
\<close>

fun backtrack :: "nat \<Rightarrow> jsstring \<Rightarrow> (jsstring \<times> jsstring) option" where
  "backtrack 0 r = None"
| "backtrack (Suc k) r =
     (case stripPrefix (js ''-chunk-'') (drop (Suc k) r) of
        Some d \<Rightarrow> if d \<noteq> [] \<and> list_all isDigit d then Some (take (Suc k) r, d) else backtrack k r
      | None \<Rightarrow> backtrack k r)"

definition parseVectorId :: "jsstring \<Rightarrow> ParsedVectorId option" where
  "parseVectorId vectorId =
     (case stripPrefix (js ''article-'') vectorId of
        None \<Rightarrow> None
      | Some r \<Rightarrow>
          (case backtrack (length (takeWhile (\<lambda>c. \<not> isLineTerminator c) r)) r of
             None \<Rightarrow> None
           | Some (a, d) \<Rightarrow> Some \<lparr>pv_articleId = a, pv_chunkIndex = parseInt d\<rparr>))"

section \<open>Vector record assembly (src/unnamed/part_004, the ingest route)\<close>

record ChunkMetadata =
  title :: jsstring
  url :: jsstring
  content :: jsstring
  chunkIndex :: nat
  articleId :: jsstring

record 'v VectorRecord =
  vr_id :: jsstring
  vr_values :: 'v
  vr_metadata :: ChunkMetadata

text \<open>
  The entries pushed to \<open>chunkToVectorMap\<close> for one prepared article:
  \<open>prepared.chunks.forEach((chunk, chunkIndex) => ...)\<close>.
\<close>

definition chunkMappings :: "jsstring \<Rightarrow> jsstring \<Rightarrow> jsstring \<Rightarrow> jsstring list \<Rightarrow> ChunkMetadata list" where
  "chunkMappings aid ttl u chunks =
     map (\<lambda>(i, chunk). \<lparr>title = ttl, url = u, content = chunk, chunkIndex = i, articleId = aid\<rparr>)
       (enumerate 0 chunks)"

text \<open>
  After the loop over the prepared articles of a batch, \<open>allChunkTexts\<close> holds the chunks of
  every article, article after article, and \<open>chunkToVectorMap\<close> the entry of each of them.
  The chunks of the article at position \<open>k\<close> start at \<open>chunkOffset prepared k\<close>.
\<close>

definition allChunkTexts :: "PreparedArticle list \<Rightarrow> jsstring list" where
  "allChunkTexts prepared = concat (map pa_chunks prepared)"

definition chunkToVectorMap :: "PreparedArticle list \<Rightarrow> ChunkMetadata list" where
  "chunkToVectorMap prepared =
     concat (map (\<lambda>p. chunkMappings (pa_id p) (pa_title p) (pa_url p) (pa_chunks p)) prepared)"

definition chunkOffset :: "PreparedArticle list \<Rightarrow> nat \<Rightarrow> nat" where
  "chunkOffset prepared k = length (allChunkTexts (take k prepared))"

text \<open>
  \<open>embeddings.forEach((embedding, idx) => ...)\<close>: the record for the embedding at \<open>idx\<close>
  is built from \<open>chunkToVectorMap[idx]\<close>; reading a field of a missing entry throws.
\<close>

fun buildVectorRecords :: "'v list \<Rightarrow> ChunkMetadata list \<Rightarrow> error + 'v VectorRecord list" where
  "buildVectorRecords [] ms = Inr []"
| "buildVectorRecords (e # es) [] = Inl (TypeError (js ''Cannot read properties of undefined''))"
| "buildVectorRecords (e # es) (m # ms) =
     (case buildVectorRecords es ms of
        Inl err \<Rightarrow> Inl err
      | Inr rs \<Rightarrow> Inr (\<lparr>vr_id = buildVectorId (articleId m) (chunkIndex m), vr_values = e,
            vr_metadata = \<lparr>title = title m, url = url m, content = content m,
              chunkIndex = chunkIndex m, articleId = articleId m\<rparr>\<rparr> # rs))"

section \<open>RAG orchestrator (src/lib/rag.ts)\<close>

text \<open>
  Numbers that are only passed along (scores, the temperature) are values of a type
  \<open>'n\<close> that is left open.
\<close>

record 'n Match =
  m_id :: jsstring
  m_score :: "'n option"
  m_metadata :: ChunkMetadata

record 'n QueryResult =
  qr_id :: jsstring
  qr_score :: 'n
  qr_metadata :: ChunkMetadata

record 'n Citation =
  ci_title :: jsstring
  ci_url :: jsstring
  ci_relevance :: 'n
  ci_snippet :: jsstring

datatype historyRole = HistoryUser | HistoryAssistant

datatype chatRole = RoleSystem | RoleUser | RoleAssistant

type_synonym chatMessage = "chatRole \<times> jsstring"

record 'n RAGOptions =
  topK :: "nat option"
  temperature :: "'n option"
  ragMaxTokens :: "int option"
  conversationHistory :: "(historyRole \<times> jsstring) list option"

record 'n RAGResult =
  answer :: jsstring
  citations :: "'n Citation list"
  retrievedChunks :: nat
  rr_model :: jsstring

text \<open>A completion: the content of the first choice, which may be missing, and the model name.\<close>

record Completion =
  co_content :: "jsstring option"
  co_model :: jsstring

text \<open>
  How a response stream ended, and the result of the streaming variant: the fragments
  enqueued on the stream in order, how it ended, and the citations.
\<close>

datatype streamEnd = Closed | Errored error

record 'n StreamResult =
  sr_stream :: "jsstring list \<times> streamEnd"
  sr_citations :: "'n Citation list"

text \<open>
  The services behind the orchestrator: the embeddings endpoint, the query of the vector
  index (which throws, or returns \<open>matches\<close>, possibly undefined), the chat completion
  without and with streaming (the streamed deltas, and the error that cut the stream, if
  any), and the numbers the code writes: \<open>0\<close>, the default temperature \<open>0.3\<close>, and
  \<open>(score * 100).toFixed(1)\<close>.
\<close>

record ('v, 'n) Services =
  embeddingsCreate :: "'v embedProvider"
  indexQuery :: "'v \<Rightarrow> nat \<Rightarrow> error + 'n Match list option"
  chatCreate :: "chatMessage list \<Rightarrow> 'n \<Rightarrow> int \<Rightarrow> error + Completion"
  chatStream :: "chatMessage list \<Rightarrow> 'n \<Rightarrow> int \<Rightarrow> error + jsstring option list \<times> error option"
  numZero :: 'n
  numDefaultTemperature :: 'n
  percentFixed1 :: "'n \<Rightarrow> jsstring"

text \<open>\<open>queryVectors\<close> (src/unnamed/part_006).\<close>

definition queryVectors :: "('v, 'n) Services \<Rightarrow> 'v \<Rightarrow> nat \<Rightarrow> error + 'n QueryResult list" where
  "queryVectors sv queryVector k =
     (case indexQuery sv queryVector k of
        Inl e \<Rightarrow> Inl (Error (js ''Failed to query vectors: '' @ errorMessage e))
      | Inr matches \<Rightarrow>
          Inr (map (\<lambda>m. \<lparr>qr_id = m_id m,
                          qr_score = (case m_score m of None \<Rightarrow> numZero sv | Some x \<Rightarrow> x),
                          qr_metadata = m_metadata m\<rparr>)
                 (case matches of None \<Rightarrow> [] | Some ms \<Rightarrow> ms)))"

definition newline :: jsstring where
  "newline = [0x0A]"

definition buildSystemPrompt :: jsstring where
  \<open>buildSystemPrompt = join newline
     [js ''You are Brett McKay's private AI assistant, trained exclusively on his Art of Manliness archive.'',
      [],
      js ''ROLE:'',
      js ''- Help Brett and his team search through 5,000+ articles and 1,000+ podcast transcripts'',
      js ''- Provide accurate, grounded answers based ONLY on the provided context'',
      js ''- Cite specific article titles and sources'',
      [],
      js ''RULES:'',
      js ''1. Base ALL responses on the provided context - never make up information'',
      js ''2. If the context doesn't contain relevant information, honestly say "I don't have information about that in your archive"'',
      js ''3. Cite specific article titles when referencing information'',
      js ''4. Use markdown formatting (bold titles, bullet points, numbered lists)'',
      js ''5. Keep tone professional, helpful, and concise'',
      js ''6. When multiple articles cover a topic, list the most relevant ones'',
      [],
      js ''FORMAT:'',
      js ''- Start with a direct answer to the question'',
      js ''- Include specific article titles in bold'',
      js ''- Use bullet points or numbered lists for multiple items'',
      js ''- Keep paragraphs short and scannable'',
      [],
      js ''Remember: Your knowledge is LIMITED to the provided context. If you're not confident an answer is in the context, say so.'']\<close>

definition contextSection :: "('v, 'n) Services \<Rightarrow> nat \<times> 'n QueryResult \<Rightarrow> jsstring" where
  \<open>contextSection sv = (\<lambda>(idx, result).
     js ''['' @ numToString (idx + 1) @ js ''] Title: "'' @ title (qr_metadata result) @ js ''"'' @ newline @
     js ''URL: '' @ url (qr_metadata result) @ newline @
     js ''Relevance: '' @ percentFixed1 sv (qr_score result) @ js ''%'' @ newline @
     newline @
     js ''Content:'' @ newline @
     content (qr_metadata result))\<close>

definition buildUserPrompt :: "('v, 'n) Services \<Rightarrow> jsstring \<Rightarrow> 'n QueryResult list \<Rightarrow> jsstring" where
  \<open>buildUserPrompt sv query retrievedContext =
     js ''CONTEXT FROM BRETT'S ARCHIVE:'' @ newline @ newline @
     join (newline @ newline @ js ''---'' @ newline @ newline)
       (map (contextSection sv) (enumerate 0 retrievedContext)) @ newline @ newline @
     js ''---'' @ newline @ newline @
     js ''USER QUERY: '' @ query @ newline @ newline @
     js ''Please provide a helpful answer based on the context above. Include specific article titles and format your response with markdown.''\<close>

text \<open>A citation: title, url, score, and the first 150 code units of the content.\<close>

definition citationOf :: "'n QueryResult \<Rightarrow> 'n Citation" where
  "citationOf chunk =
     \<lparr>ci_title = title (qr_metadata chunk), ci_url = url (qr_metadata chunk),
      ci_relevance = qr_score chunk,
      ci_snippet = take 150 (content (qr_metadata chunk)) @ js ''...''\<rparr>"

text \<open>The messages sent to the model: system prompt, the last six turns, context and query.\<close>

definition buildMessages ::
  "('v, 'n) Services \<Rightarrow> jsstring \<Rightarrow> 'n QueryResult list \<Rightarrow> (historyRole \<times> jsstring) list \<Rightarrow>
   chatMessage list" where
  "buildMessages sv query retrieved history =
     [(RoleSystem, buildSystemPrompt)] @
     map (\<lambda>(r, c). (if r = HistoryUser then RoleUser else RoleAssistant, c))
       (jsSlice history (- 6) (int (length history))) @
     [(RoleUser, buildUserPrompt sv query retrieved)]"

definition optTopK :: "'n RAGOptions \<Rightarrow> nat" where
  "optTopK options = (case topK options of None \<Rightarrow> 5 | Some k \<Rightarrow> k)"

definition optTemperature :: "('v, 'n) Services \<Rightarrow> 'n RAGOptions \<Rightarrow> 'n" where
  "optTemperature sv options =
     (case temperature options of None \<Rightarrow> numDefaultTemperature sv | Some t \<Rightarrow> t)"

definition optMaxTokens :: "'n RAGOptions \<Rightarrow> int" where
  "optMaxTokens options = (case ragMaxTokens options of None \<Rightarrow> 800 | Some m \<Rightarrow> m)"

definition optHistory :: "'n RAGOptions \<Rightarrow> (historyRole \<times> jsstring) list" where
  "optHistory options = (case conversationHistory options of None \<Rightarrow> [] | Some h \<Rightarrow> h)"

text \<open>
  \<open>queryKnowledgeBase\<close>. The second component of the result lists the requests made to
  the generative model, each with the messages it was sent.
\<close>

definition queryKnowledgeBase ::
  "('v, 'n) Services \<Rightarrow> jsstring \<Rightarrow> 'n RAGOptions \<Rightarrow> (error + 'n RAGResult) \<times> chatMessage list list" where
  \<open>queryKnowledgeBase sv query options =
     (case embedQuery (embeddingsCreate sv) query of
        Inl e \<Rightarrow> (Inl e, [])
      | Inr queryEmbedding \<Rightarrow>
          (case queryVectors sv queryEmbedding (optTopK options) of
             Inl e \<Rightarrow> (Inl e, [])
           | Inr retrieved \<Rightarrow>
               if length retrieved = 0 then
                 (Inr \<lparr>answer = js ''I couldn't find any relevant information in the archive for your question. Could you try rephrasing or asking about a different topic?'',
                       citations = [], retrievedChunks = 0, rr_model = js ''gpt-4o''\<rparr>, [])
               else
                 (let cites = map citationOf retrieved;
                      messages = buildMessages sv query retrieved (optHistory options)
                  in case chatCreate sv messages (optTemperature sv options) (optMaxTokens options) of
                       Inl e \<Rightarrow>
                         (Inl (Error (js ''Failed to generate response: '' @ errorMessage e)),
                          [messages])
                     | Inr completion \<Rightarrow>
                         (Inr \<lparr>answer = (case co_content completion of
                                           None \<Rightarrow> js ''No response generated.''
                                         | Some c \<Rightarrow> if c = [] then js ''No response generated.'' else c),
                               citations = cites, retrievedChunks = length retrieved,
                               rr_model = co_model completion\<rparr>,
                          [messages]))))\<close>

text \<open>
  \<open>queryKnowledgeBaseStream\<close>. The fragments of the model are enqueued as they come,
  empty or missing ones are skipped; an error while reading the model's stream ends the
  response stream with that error.
\<close>

definition queryKnowledgeBaseStream ::
  "('v, 'n) Services \<Rightarrow> jsstring \<Rightarrow> 'n RAGOptions \<Rightarrow> (error + 'n StreamResult) \<times> chatMessage list list" where
  \<open>queryKnowledgeBaseStream sv query options =
     (case embedQuery (embeddingsCreate sv) query of
        Inl e \<Rightarrow> (Inl e, [])
      | Inr queryEmbedding \<Rightarrow>
          (case queryVectors sv queryEmbedding (optTopK options) of
             Inl e \<Rightarrow> (Inl e, [])
           | Inr retrieved \<Rightarrow>
               (let cites = map citationOf retrieved
                in if length retrieved = 0 then
                     (Inr \<lparr>sr_stream = ([js ''I couldn't find any relevant information in the archive for your question.''], Closed),
                           sr_citations = []\<rparr>, [])
                   else
                     (let messages = buildMessages sv query retrieved (optHistory options)
                      in case chatStream sv messages (optTemperature sv options) (optMaxTokens options) of
                           Inl e \<Rightarrow> (Inl e, [messages])
                         | Inr (deltas, failure) \<Rightarrow>
                             (Inr \<lparr>sr_stream =
                                     (concat (map (\<lambda>d. case d of None \<Rightarrow> []
                                                       | Some c \<Rightarrow> if c = [] then [] else [c]) deltas),
                                      case failure of None \<Rightarrow> Closed | Some e \<Rightarrow> Errored e),
                                   sr_citations = cites\<rparr>,
                              [messages])))))\<close>

section \<open>Example services\<close>

text \<open>An embeddings provider that is the function \<open>length\<close> on every text.\<close>

definition lengthProvider :: "nat embedProvider" where
  "lengthProvider inp = (case inp of Single t \<Rightarrow> Inr [length t] | Batch ts \<Rightarrow> Inr (map length ts))"

text \<open>Services over an empty index, with a generative model that would answer.\<close>

definition quietServices :: "(nat list, nat) Services" where
  "quietServices =
     \<lparr>embeddingsCreate = (\<lambda>inp. Inr [[1, 2, 3]]),
      indexQuery = (\<lambda>v k. Inr (Some [])),
      chatCreate = (\<lambda>ms t m. Inr \<lparr>co_content = Some (js ''generated''), co_model = js ''gpt-4o''\<rparr>),
      chatStream = (\<lambda>ms t m. Inr ([Some (js ''generated'')], None)),
      numZero = 0, numDefaultTemperature = 3, percentFixed1 = (\<lambda>n. [])\<rparr>"

section \<open>Example model\<close>

text \<open>A model whose every request throws.\<close>

definition failingModel :: chatModel where
  "failingModel t n = Inl (Error (js ''rate limit''))"

section \<open>Example batch\<close>

text \<open>Two prepared articles, of two chunks and of one chunk.\<close>

definition exampleBatch :: "PreparedArticle list" where
  "exampleBatch =
     [\<lparr>pa_id = js ''7'', pa_title = js ''T'', pa_url = js ''u'', pa_content = js ''a b'',
        pa_chunks = [js ''a'', js ''b''], pa_totalTokens = 2\<rparr>,
      \<lparr>pa_id = js ''8'', pa_title = js ''U'', pa_url = js ''v'', pa_content = js ''c'',
        pa_chunks = [js ''c''], pa_totalTokens = 2\<rparr>]"

section \<open>Example texts\<close>

text \<open>
  A sentence of 1400 code units: the given first letter, 1398 times the letter \<open>a\<close>, and
  a full stop. Two of them and a short third sentence make a text of 2805 code units.
\<close>

definition longSentence :: "jschar \<Rightarrow> jsstring" where
  "longSentence c = c # replicate 1398 0x61 @ [0x2E]"

definition longText :: jsstring where
  "longText = longSentence 0x41 @ space @ longSentence 0x42 @ space @ js ''Cc.''"

section \<open>Properties of numbers and their rendering\<close>

lemma bitLength_upper: "n < 2 ^ bitLength n"
proof (induction n rule: bitLength.induct)
  case (1 n)
  show ?case
  proof (cases "n = 0")
    case True
    then show ?thesis by simp
  next
    case False
    with 1 have "n div 2 < 2 ^ bitLength (n div 2)" by simp
    then have "n < 2 * 2 ^ bitLength (n div 2)" by linarith
    with False show ?thesis by (subst bitLength.simps) simp
  qed
qed

lemma bitLength_lower: "0 < n \<Longrightarrow> 2 ^ (bitLength n - 1) \<le> n"
proof (induction n rule: bitLength.induct)
  case (1 n)
  show ?case
  proof (cases "n div 2 = 0")
    case True
    with 1(2) have "bitLength n = 1"
      by (subst bitLength.simps, subst bitLength.simps) simp
    with 1(2) show ?thesis by simp
  next
    case False
    with 1 have ih: "2 ^ (bitLength (n div 2) - 1) \<le> n div 2" by simp
    from False have "0 < bitLength (n div 2)" by (subst bitLength.simps) simp
    then have "(2::nat) ^ bitLength (n div 2) = 2 * 2 ^ (bitLength (n div 2) - 1)"
      by (cases "bitLength (n div 2)") simp_all
    with ih have "2 ^ bitLength (n div 2) \<le> n" by linarith
    with 1(2) show ?thesis by (subst bitLength.simps) simp
  qed
qed

lemma bitLength_eq: "2 ^ k \<le> n \<Longrightarrow> n < 2 ^ Suc k \<Longrightarrow> bitLength n = Suc k"
proof -
  assume lo: "2 ^ k \<le> n" and hi: "n < 2 ^ Suc k"
  from lo have pos: "0 < n" by (metis gr0I not_le zero_less_numeral zero_less_power)
  from lo bitLength_upper [of n] have "(2::nat) ^ k < 2 ^ bitLength n" by linarith
  then have a: "k < bitLength n" by (rule power_less_imp_less_exp [rotated]) simp
  from bitLength_lower [OF pos] hi have "(2::nat) ^ (bitLength n - 1) < 2 ^ Suc k" by linarith
  then have "bitLength n - 1 < Suc k" by (rule power_less_imp_less_exp [rotated]) simp
  with a show ?thesis by linarith
qed

text \<open>Every natural number below \<open>2^53\<close> is a number, and is the only decimal it stands for.\<close>

lemma toNumber_safe: "n < 2 ^ 53 \<Longrightarrow> toNumber n = Finite n"
  by (simp add: toNumber_def)

lemma toNumber_large:
  assumes c: "2 ^ 53 \<le> c" and v: "toNumber c = Finite v"
  shows "2 ^ 53 \<le> v"
proof -
  define e where "e = bitLength c - 53"
  define q where "q = c div 2 ^ e"
  from c have pos: "0 < c" by (metis gr0I not_le zero_less_numeral zero_less_power)
  from c bitLength_upper [of c] have "(2::nat) ^ 53 < 2 ^ bitLength c" by linarith
  then have bl: "53 < bitLength c" by (rule power_less_imp_less_exp [rotated]) simp
  then have e: "bitLength c - 1 = 52 + e" "1 \<le> e" by (simp_all add: e_def)
  have "(2::nat) ^ (bitLength c - 1) = 2 ^ 52 * 2 ^ e" by (simp only: e power_add)
  with bitLength_lower [OF pos] have "2 ^ 52 * 2 ^ e \<le> c" by (simp only:)
  then have q: "2 ^ 52 \<le> q" unfolding q_def by (simp add: less_eq_div_iff_mult_less_eq)
  have "(2::nat) ^ 1 \<le> 2 ^ e" using e(2) by (intro power_increasing) simp_all
  then have e2: "(2::nat) \<le> 2 ^ e" by simp
  have "(2::nat) ^ 52 * 2 \<le> q * 2 ^ e" using q e2 by (rule mult_le_mono)
  then have lo: "2 ^ 53 \<le> q * 2 ^ e" by simp
  have "q * 2 ^ e \<le> (q + 1) * 2 ^ e" by simp
  with lo have lo': "2 ^ 53 \<le> (q + 1) * 2 ^ e" by linarith
  from v c show ?thesis
    using lo lo' unfolding toNumber_def Let_def e_def [symmetric] q_def [symmetric]
    by (auto split: if_splits)
qed

lemma toNumber_safe_unique:
  assumes n: "n < 2 ^ 53" and c: "toNumber c = Finite n"
  shows "c = n"
proof (cases "c < 2 ^ 53")
  case True
  with c show ?thesis by (simp add: toNumber_safe)
next
  case False
  then have "2 ^ 53 \<le> c" by simp
  from toNumber_large [OF this c] n show ?thesis by simp
qed

text \<open>The decimal printed for a number is the number itself or stands for it.\<close>

lemma shortestDecimal_cases:
  "shortestDecimal x = x \<or> toNumber (shortestDecimal x) = Finite x"
proof (cases "filter (\<lambda>c. toNumber c = Finite x)
             (concat (map (candidatesAt x) (rev [0..<length (decimalDigits x)])))")
  case Nil
  then show ?thesis by (simp add: shortestDecimal_def)
next
  case (Cons c cs)
  then have "c \<in> set (filter (\<lambda>c. toNumber c = Finite x)
             (concat (map (candidatesAt x) (rev [0..<length (decimalDigits x)]))))" by simp
  then have "toNumber c = Finite x" by simp
  with Cons show ?thesis by (simp add: shortestDecimal_def)
qed

lemma shortestDecimal_exact: "toNumber x = Finite x \<Longrightarrow> toNumber (shortestDecimal x) = Finite x"
  using shortestDecimal_cases [of x] by auto

lemma shortestDecimal_safe: "n < 2 ^ 53 \<Longrightarrow> shortestDecimal n = n"
  using shortestDecimal_cases [of n] toNumber_safe_unique [of n "shortestDecimal n"] by auto

lemma numToString_safe: "n < 2 ^ 53 \<Longrightarrow> numToString n = decimalDigits n"
  by (simp add: numToString_def toNumber_safe shortestDecimal_safe)

lemma decimalDigits_bound: "x < 10 ^ length (decimalDigits x)"
proof (induction x rule: decimalDigits.induct)
  case (1 n)
  show ?case
  proof (cases "n < 10")
    case True
    then show ?thesis by (simp add: decimalDigits.simps [of n])
  next
    case False
    with 1 have "n div 10 < 10 ^ length (decimalDigits (n div 10))" by simp
    then have "n < 10 * 10 ^ length (decimalDigits (n div 10))" by linarith
    with False show ?thesis by (simp add: decimalDigits.simps [of n])
  qed
qed

lemma decimalDigits_length: "0 < k \<Longrightarrow> x < 10 ^ k \<Longrightarrow> length (decimalDigits x) \<le> k"
proof (induction x arbitrary: k rule: decimalDigits.induct)
  case (1 n)
  show ?case
  proof (cases "n < 10")
    case True
    with 1(2) show ?thesis by (simp add: decimalDigits.simps [of n])
  next
    case False
    with 1(3) have k: "1 < k" by (cases "k = 1") (use 1(2) in auto)
    then have "(10::nat) ^ k = 10 * 10 ^ (k - 1)" by (cases k) simp_all
    with 1(3) have "n div 10 < 10 ^ (k - 1)" by simp
    with 1(1) [of "k - 1"] False k have "length (decimalDigits (n div 10)) \<le> k - 1" by simp
    with False k show ?thesis by (simp add: decimalDigits.simps [of n])
  qed
qed

lemma candidatesAt_bound:
  assumes j: "j < l" and x: "x < 10 ^ l" and c: "c \<in> set (candidatesAt x j)"
  shows "c \<le> 10 ^ l"
proof -
  from j have l: "(10::nat) ^ l = 10 ^ (l - j) * 10 ^ j" by (simp flip: power_add)
  with x have "x div 10 ^ j < 10 ^ (l - j)" by (simp add: less_mult_imp_div_less)
  then have "x div 10 ^ j + 1 \<le> 10 ^ (l - j)" by simp
  then have "(x div 10 ^ j + 1) * 10 ^ j \<le> 10 ^ (l - j) * 10 ^ j" by (rule mult_le_mono1)
  then have hi: "(x div 10 ^ j) * 10 ^ j + 10 ^ j \<le> 10 ^ l" by (simp add: l)
  then have lo: "(x div 10 ^ j) * 10 ^ j \<le> 10 ^ l" by linarith
  from c show ?thesis
    unfolding candidatesAt_def Let_def using hi lo by (auto split: if_splits)
qed

lemma shortestDecimal_le:
  assumes x: "x < 10 ^ l" and l: "length (decimalDigits x) \<le> l"
  shows "shortestDecimal x \<le> 10 ^ l"
proof (cases "filter (\<lambda>c. toNumber c = Finite x)
             (concat (map (candidatesAt x) (rev [0..<length (decimalDigits x)])))")
  case Nil
  with x show ?thesis by (simp add: shortestDecimal_def)
next
  case (Cons c cs)
  then have "c \<in> set (filter (\<lambda>c. toNumber c = Finite x)
             (concat (map (candidatesAt x) (rev [0..<length (decimalDigits x)]))))" by simp
  then obtain j where "j < length (decimalDigits x)" "c \<in> set (candidatesAt x j)" by auto
  with l have "j < l" "c \<in> set (candidatesAt x j)" by simp_all
  from candidatesAt_bound [OF this(1) x this(2)] Cons show ?thesis
    by (simp add: shortestDecimal_def)
qed

lemma bitLength_10_21: "bitLength 1000000000000000000000 = 70"
proof -
  have "bitLength 1000000000000000000000 = Suc 69" by (rule bitLength_eq) simp_all
  then show ?thesis by simp
qed

lemma toNumber_10_21: "toNumber (10 ^ 21) = Finite (10 ^ 21)"
  by (simp add: toNumber_def bitLength_10_21 Let_def)

text \<open>A number below \<open>10^21\<close> is printed in plain decimal, by digits that stand for it.\<close>

lemma shortestDecimal_plain:
  assumes x: "x < 10 ^ 21" and ex: "toNumber x = Finite x"
  shows "shortestDecimal x < 10 ^ 21 \<and> toNumber (shortestDecimal x) = Finite x"
proof -
  from decimalDigits_length [of 21 x] x have "length (decimalDigits x) \<le> 21" by simp
  from shortestDecimal_le [OF x this] have le: "shortestDecimal x \<le> 10 ^ 21" .
  have e: "toNumber (shortestDecimal x) = Finite x" by (rule shortestDecimal_exact [OF ex])
  have "shortestDecimal x \<noteq> 10 ^ 21"
  proof
    assume "shortestDecimal x = 10 ^ 21"
    with e toNumber_10_21 have "x = 10 ^ 21" by simp
    with x show False by simp
  qed
  with le e show ?thesis by simp
qed

lemma numToString_plain:
  assumes x: "x < 10 ^ 21" and ex: "toNumber x = Finite x"
  shows "numToString x = decimalDigits (shortestDecimal x)"
  using shortestDecimal_plain [OF x ex] by (simp add: numToString_def ex)

lemma unat_digitChar: "d < 10 \<Longrightarrow> unat (digitChar d) = 48 + d"
  unfolding digitChar_def unat_of_nat by simp

lemma isDigit_digitChar: "d < 10 \<Longrightarrow> isDigit (digitChar d)"
  by (simp add: isDigit_def word_le_nat_alt unat_digitChar)

lemma digitVal_digitChar: "d < 10 \<Longrightarrow> digitVal (digitChar d) = d"
  by (simp add: digitVal_def unat_digitChar)

lemma decimalDigits_digits: "list_all isDigit (decimalDigits n)"
proof (induction n rule: decimalDigits.induct)
  case (1 n)
  show ?case
  proof (cases "n < 10")
    case True
    then show ?thesis by (simp add: decimalDigits.simps [of n] isDigit_digitChar)
  next
    case False
    with 1 show ?thesis by (simp add: decimalDigits.simps [of n] isDigit_digitChar)
  qed
qed

lemma decimalDigits_nonempty: "decimalDigits n \<noteq> []"
  by (simp add: decimalDigits.simps [of n])

lemma value_decimalDigits: "foldl (\<lambda>a c. 10 * a + digitVal c) 0 (decimalDigits n) = n"
proof (induction n rule: decimalDigits.induct)
  case (1 n)
  show ?case
  proof (cases "n < 10")
    case True
    then show ?thesis by (simp add: decimalDigits.simps [of n] digitVal_digitChar)
  next
    case False
    with 1 show ?thesis by (simp add: decimalDigits.simps [of n] digitVal_digitChar)
  qed
qed

lemma parseInt_decimalDigits: "parseInt (decimalDigits n) = toNumber n"
  by (simp add: parseInt_def value_decimalDigits)

text \<open>No rendering of a number contains a hyphen.\<close>

lemma digit_not_hyphen: "isDigit c \<Longrightarrow> c \<noteq> 0x2D"
  by (auto simp: isDigit_def)

lemma decimalDigits_no_hyphen: "0x2D \<notin> set (decimalDigits n)"
  using decimalDigits_digits [of n] by (auto simp: list_all_iff dest: digit_not_hyphen)

lemma significant_no_hyphen:
  "rev (dropWhile (\<lambda>d. d = 0x30) (rev (decimalDigits n))) = d # fraction \<Longrightarrow>
   d \<noteq> 0x2D \<and> 0x2D \<notin> set fraction"
proof -
  assume eq: "rev (dropWhile (\<lambda>d. d = 0x30) (rev (decimalDigits n))) = d # fraction"
  have "set (rev (dropWhile (\<lambda>d. d = 0x30) (rev (decimalDigits n)))) \<subseteq> set (decimalDigits n)"
    by (auto dest: set_dropWhileD)
  with eq have "set (d # fraction) \<subseteq> set (decimalDigits n)" by simp
  with decimalDigits_no_hyphen [of n] show ?thesis by auto
qed

lemma exponentForm_no_hyphen: "0x2D \<notin> set (exponentForm n)"
proof -
  let ?sig = "rev (dropWhile (\<lambda>d. d = 0x30) (rev (decimalDigits n)))"
  have "0x2D \<notin> set (case ?sig of [] \<Rightarrow> []
      | d # fraction \<Rightarrow> d # (if fraction = [] then [] else 0x2E # fraction))"
  proof (cases ?sig)
    case Nil
    show ?thesis unfolding Nil by simp
  next
    case (Cons d fraction)
    from significant_no_hyphen [OF Cons] show ?thesis unfolding Cons by simp
  qed
  then show ?thesis
    unfolding exponentForm_def Let_def by (simp add: js_def decimalDigits_no_hyphen)
qed

lemma numToString_no_hyphen: "0x2D \<notin> set (numToString n)"
proof (cases "toNumber n")
  case (Finite x)
  then show ?thesis
    by (simp add: numToString_def Let_def decimalDigits_no_hyphen exponentForm_no_hyphen)
next
  case Infinity
  then show ?thesis by (simp add: numToString_def js_def)
qed

section \<open>Properties of the vector identifiers\<close>

lemma stripPrefix_Some_iff: "stripPrefix p s = Some r \<longleftrightarrow> s = p @ r"
  by (induction p s rule: stripPrefix.induct) auto

lemma stripPrefix_append [simp]: "stripPrefix p (p @ r) = Some r"
  by (simp add: stripPrefix_Some_iff)

lemma digit_not_lt: "isDigit c \<Longrightarrow> \<not> isLineTerminator c"
  by (auto simp: isDigit_def isLineTerminator_def)

lemma js_chunk: "js ''-chunk-'' = [0x2D, 0x63, 0x68, 0x75, 0x6E, 0x6B, 0x2D]"
  by (simp add: js_def)

text \<open>No group longer than the article id leaves "-chunk-" behind it.\<close>

lemma drop_past_prefix: "length a \<le> k \<Longrightarrow> drop k (a @ t) = drop (k - length a) t"
  by simp

lemma no_later_match_aux:
  assumes d: "0x2D \<notin> set d" and j: "0 < j"
  shows "drop j (js ''-chunk-'' @ d) \<noteq> js ''-chunk-'' @ d'"
proof
  assume eq: "drop j (js ''-chunk-'' @ d) = js ''-chunk-'' @ d'"
  consider "j = 1" | "j = 2" | "j = 3" | "j = 4" | "j = 5" | "j = 6" | "7 \<le> j"
    using j by linarith
  then show False
  proof cases
    case 7
    have len: "length (js ''-chunk-'') = 7" by (simp add: js_def)
    from 7 have "drop j (js ''-chunk-'' @ d) = drop (j - 7) d"
      using drop_past_prefix [of "js ''-chunk-''" j d] by (simp only: len)
    with eq have e: "drop (j - 7) d = js ''-chunk-'' @ d'" by simp
    have "0x2D \<in> set (drop (j - 7) d)" unfolding e by (simp add: js_chunk)
    with d show ?thesis by (auto dest: in_set_dropD)
  next
    case 6
    with eq have "d = [0x63, 0x68, 0x75, 0x6E, 0x6B, 0x2D] @ d'" by (simp add: js_chunk)
    with d show ?thesis by simp
  qed (use eq in \<open>simp_all add: js_chunk\<close>)
qed

lemma backtrack_skip:
  assumes d: "0x2D \<notin> set d" and k: "length a < Suc k"
  shows "backtrack (Suc k) (a @ js ''-chunk-'' @ d) = backtrack k (a @ js ''-chunk-'' @ d)"
proof (cases "stripPrefix (js ''-chunk-'') (drop (Suc k) (a @ js ''-chunk-'' @ d))")
  case None
  then show ?thesis by (simp only: backtrack.simps option.case)
next
  case (Some d')
  have "drop (Suc k) (a @ js ''-chunk-'' @ d) = drop (Suc k - length a) (js ''-chunk-'' @ d)"
    using k by (intro drop_past_prefix) simp
  with Some have "drop (Suc k - length a) (js ''-chunk-'' @ d) = js ''-chunk-'' @ d'"
    by (simp only: stripPrefix_Some_iff)
  moreover have "0 < Suc k - length a" using k by simp
  ultimately show ?thesis using no_later_match_aux [OF d] by blast
qed

lemma backtrack_found:
  assumes d: "list_all isDigit d" "d \<noteq> []" and a: "a \<noteq> []"
  shows "length a \<le> k \<Longrightarrow> backtrack k (a @ js ''-chunk-'' @ d) = Some (a, d)"
proof (induction k)
  case 0
  with a show ?case by simp
next
  case (Suc k)
  from d(1) have nh: "0x2D \<notin> set d" by (auto simp: list_all_iff dest: digit_not_hyphen)
  show ?case
  proof (cases "length a = Suc k")
    case True
    then show ?thesis using d by simp
  next
    case False
    with Suc.prems have lt: "length a < Suc k" and le: "length a \<le> k" by simp_all
    from backtrack_skip [OF nh lt] Suc.IH [OF le] show ?thesis by simp
  qed
qed

lemma backtrack_empty_id:
  assumes d: "0x2D \<notin> set d"
  shows "backtrack k (js ''-chunk-'' @ d) = None"
proof (induction k)
  case 0
  show ?case by simp
next
  case (Suc k)
  have "backtrack (Suc k) ([] @ js ''-chunk-'' @ d) = backtrack k ([] @ js ''-chunk-'' @ d)"
    by (rule backtrack_skip [OF d]) simp
  with Suc show ?case by simp
qed

lemma takeWhile_all: "\<forall>c \<in> set r. P c \<Longrightarrow> takeWhile P r = r"
  by simp

lemma chunk_not_lt: "c \<in> set (js ''-chunk-'') \<Longrightarrow> \<not> isLineTerminator c"
  by (auto simp: js_chunk isLineTerminator_def)

lemma parse_built:
  assumes a: "aid \<noteq> []" "\<not> list_ex isLineTerminator aid"
  shows "parseVectorId (js ''article-'' @ aid @ js ''-chunk-'' @ decimalDigits c) =
           Some \<lparr>pv_articleId = aid, pv_chunkIndex = toNumber c\<rparr>"
proof -
  let ?d = "decimalDigits c"
  let ?r = "aid @ js ''-chunk-'' @ ?d"
  have "\<forall>c \<in> set ?r. \<not> isLineTerminator c"
    using a decimalDigits_digits [of c]
    by (auto simp: list_all_iff list_ex_iff dest: digit_not_lt chunk_not_lt)
  then have tw: "takeWhile (\<lambda>c. \<not> isLineTerminator c) ?r = ?r"
    by (rule takeWhile_all)
  have "backtrack (length ?r) ?r = Some (aid, ?d)"
    using a by (intro backtrack_found decimalDigits_digits decimalDigits_nonempty) simp_all
  then show ?thesis
    unfolding parseVectorId_def
    by (simp only: stripPrefix_append option.case tw prod.case parseInt_decimalDigits)
qed

text \<open>
  Claim C9, as amended. For every non-empty article id that contains no line terminator (LF,
  CR, U+2028, U+2029, the code units that \<open>.\<close> does not match) and every natural chunk
  index below \<open>10^21\<close> that a number holds exactly, parsing the built vector id gives back
  exactly the article id and the chunk index. Every natural number below \<open>2^53\<close> is held
  exactly, and is printed in the id by its decimal digits. Non-emptiness is needed: the id built
  from the empty article id does not parse, \<open>parseVectorId\<close> returns null, whatever the
  chunk index.
\<close>

theorem vector_id_round_trip:
  "(aid \<noteq> [] \<and> \<not> list_ex isLineTerminator aid \<and> idx < 10 ^ 21 \<and> toNumber idx = Finite idx \<longrightarrow>
      parseVectorId (buildVectorId aid idx) =
        Some \<lparr>pv_articleId = aid, pv_chunkIndex = Finite idx\<rparr>)
   \<and> (idx < 2 ^ 53 \<longrightarrow>
        toNumber idx = Finite idx \<and>
        buildVectorId aid idx = js ''article-'' @ aid @ js ''-chunk-'' @ decimalDigits idx)
   \<and> parseVectorId (buildVectorId [] idx) = None"
proof (intro conjI impI)
  assume h: "aid \<noteq> [] \<and> \<not> list_ex isLineTerminator aid \<and> idx < 10 ^ 21 \<and> toNumber idx = Finite idx"
  then have x: "idx < 10 ^ 21" and ex: "toNumber idx = Finite idx" by simp_all
  from h have a: "aid \<noteq> []" "\<not> list_ex isLineTerminator aid" by simp_all
  have "buildVectorId aid idx =
          js ''article-'' @ aid @ js ''-chunk-'' @ decimalDigits (shortestDecimal idx)"
    by (simp only: buildVectorId_def numToString_plain [OF x ex])
  with parse_built [OF a, of "shortestDecimal idx"] shortestDecimal_plain [OF x ex]
  show "parseVectorId (buildVectorId aid idx) =
        Some \<lparr>pv_articleId = aid, pv_chunkIndex = Finite idx\<rparr>"
    by simp
next
  assume "idx < 2 ^ 53"
  then show "toNumber idx = Finite idx" by (rule toNumber_safe)
next
  assume "idx < 2 ^ 53"
  then show "buildVectorId aid idx = js ''article-'' @ aid @ js ''-chunk-'' @ decimalDigits idx"
    by (simp only: buildVectorId_def numToString_safe)
next
  show "parseVectorId (buildVectorId [] idx) = None"
    unfolding parseVectorId_def buildVectorId_def
    by (simp add: backtrack_empty_id numToString_no_hyphen)
qed

theorem vector_id_round_trip_witness:
  "js ''a-chunk-5'' \<noteq> [] \<and> \<not> list_ex isLineTerminator (js ''a-chunk-5'') \<and>
   (120::nat) < 10 ^ 21 \<and> toNumber 120 = Finite 120 \<and> (120::nat) < 2 ^ 53 \<and>
   parseVectorId (buildVectorId (js ''a-chunk-5'') 120) =
     Some \<lparr>pv_articleId = js ''a-chunk-5'', pv_chunkIndex = Finite 120\<rparr> \<and>
   buildVectorId (js ''a-chunk-5'') 120 =
     js ''article-'' @ js ''a-chunk-5'' @ js ''-chunk-'' @ decimalDigits 120"
proof -
  have h: "js ''a-chunk-5'' \<noteq> [] \<and> \<not> list_ex isLineTerminator (js ''a-chunk-5'') \<and>
      (120::nat) < 10 ^ 21 \<and> toNumber 120 = Finite 120"
    by (simp add: js_def isLineTerminator_def toNumber_def)
  have s: "(120::nat) < 2 ^ 53" by simp
  from h s vector_id_round_trip [of "js ''a-chunk-5''" 120] show ?thesis by blast
qed

text \<open>
  A carriage return or a line separator in the article id, which are not newline characters,
  make the built id unparsable, and so does the chunk index \<open>10^21\<close>, which is printed as
  \<open>1e+21\<close>.
\<close>

theorem vector_id_round_trip_counterexample:
  "[0x0D] \<noteq> [] \<and> 0x0A \<notin> set [0x0D :: jschar] \<and> parseVectorId (buildVectorId [0x0D] 0) = None \<and>
   [0x2028] \<noteq> [] \<and> 0x0A \<notin> set [0x2028 :: jschar] \<and> parseVectorId (buildVectorId [0x2028] 0) = None \<and>
   js ''a'' \<noteq> [] \<and> 0x0A \<notin> set (js ''a'') \<and>
   buildVectorId (js ''a'') (10 ^ 21) = js ''article-a-chunk-1e+21'' \<and>
   parseVectorId (buildVectorId (js ''a'') (10 ^ 21)) = None"
proof -
  have zero: "numToString 0 = [0x30]"
    by (simp add: numToString_safe decimalDigits.simps digitChar_def)
  have cr: "parseVectorId (buildVectorId [0x0D] 0) = None"
    unfolding buildVectorId_def zero by code_simp
  have ls: "parseVectorId (buildVectorId [0x2028] 0) = None"
    unfolding buildVectorId_def zero by code_simp
  have sd: "shortestDecimal 1000000000000000000000 = 1000000000000000000000"
    by (simp add: shortestDecimal_def candidatesAt_def toNumber_def bitLength.simps
        decimalDigits.simps Let_def)
  have big: "numToString (10 ^ 21) = js ''1e+21''"
    using toNumber_10_21
    by (simp add: numToString_def sd exponentForm_def decimalDigits.simps digitChar_def js_def)
  have build: "buildVectorId (js ''a'') (10 ^ 21) = js ''article-a-chunk-1e+21''"
    unfolding buildVectorId_def big by (simp add: js_def)
  have "parseVectorId (js ''article-a-chunk-1e+21'') = None" by code_simp
  with build have parse: "parseVectorId (buildVectorId (js ''a'') (10 ^ 21)) = None" by simp
  show ?thesis using cr ls build parse by (simp add: js_def)
qed

section \<open>Properties of the vector record assembly\<close>

lemma buildVectorRecords_zip:
  "length es \<le> length ms \<Longrightarrow>
   buildVectorRecords es ms =
     Inr (map (\<lambda>(e, m). \<lparr>vr_id = buildVectorId (articleId m) (chunkIndex m), vr_values = e,
            vr_metadata = \<lparr>title = title m, url = url m, content = content m,
              chunkIndex = chunkIndex m, articleId = articleId m\<rparr>\<rparr>) (zip es ms))"
proof (induction es ms rule: buildVectorRecords.induct)
  case (1 ms)
  show ?case by simp
next
  case (2 e es)
  then show ?case by simp
next
  case (3 e es m ms)
  then show ?case by simp
qed

lemma chunkMappings_nth:
  "i < length chunks \<Longrightarrow>
   chunkMappings aid ttl u chunks ! i =
     \<lparr>title = ttl, url = u, content = chunks ! i, chunkIndex = i, articleId = aid\<rparr>"
  by (simp add: chunkMappings_def nth_enumerate_eq)

lemma length_chunkMappings [simp]: "length (chunkMappings aid ttl u chunks) = length chunks"
  by (simp add: chunkMappings_def)

lemma length_chunkToVectorMap [simp]:
  "length (chunkToVectorMap prepared) = length (allChunkTexts prepared)"
  by (induction prepared) (simp_all add: chunkToVectorMap_def allChunkTexts_def)

lemma chunkOffset_Suc:
  "chunkOffset (p # prepared) (Suc k) = length (pa_chunks p) + chunkOffset prepared k"
  by (simp add: chunkOffset_def allChunkTexts_def)

text \<open>
  The entry of \<open>chunkToVectorMap\<close> for chunk \<open>i\<close> of the article at position \<open>k\<close> of
  the batch.
\<close>

lemma chunkToVectorMap_nth:
  "k < length prepared \<Longrightarrow> i < length (pa_chunks (prepared ! k)) \<Longrightarrow>
   chunkToVectorMap prepared ! (chunkOffset prepared k + i) =
     \<lparr>title = pa_title (prepared ! k), url = pa_url (prepared ! k),
      content = pa_chunks (prepared ! k) ! i, chunkIndex = i, articleId = pa_id (prepared ! k)\<rparr>"
proof (induction prepared arbitrary: k)
  case Nil
  then show ?case by simp
next
  case (Cons p prepared)
  have unfold: "chunkToVectorMap (p # prepared) =
      chunkMappings (pa_id p) (pa_title p) (pa_url p) (pa_chunks p) @ chunkToVectorMap prepared"
    by (simp add: chunkToVectorMap_def)
  show ?case
  proof (cases k)
    case 0
    with Cons.prems show ?thesis
      by (simp add: unfold nth_append chunkMappings_nth chunkOffset_def allChunkTexts_def)
  next
    case (Suc k')
    with Cons.prems have "k' < length prepared" "i < length (pa_chunks (prepared ! k'))"
      by simp_all
    from Cons.IH [OF this] Suc show ?thesis
      by (simp add: unfold nth_append chunkOffset_Suc)
  qed
qed

text \<open>
  Claim C6, as amended. For every chunk of every article of an ingested batch whose embedding
  is written, the identifier is the string \<open>article-<articleId>-chunk-<chunkIndex>\<close>, a
  function of the id of the chunk's article and of the 0-based index of the chunk within its
  article alone (printed by its decimal digits), and the metadata carries the fields title,
  url, content, chunkIndex and articleId of that chunk. The chunk \<open>i\<close> of the article at
  position \<open>k\<close> of the batch is written at the position \<open>chunkOffset prepared k + i\<close>.
\<close>

theorem vector_record_id_article:
  assumes "length es \<le> length (allChunkTexts prepared)"
  shows "\<exists>rs. buildVectorRecords es (chunkToVectorMap prepared) = Inr rs \<and>
           length rs = length es \<and>
           (\<forall>k i. k < length prepared \<and> i < length (pa_chunks (prepared ! k)) \<and>
                  chunkOffset prepared k + i < length es \<longrightarrow>
              vr_id (rs ! (chunkOffset prepared k + i)) =
                js ''article-'' @ pa_id (prepared ! k) @ js ''-chunk-'' @ numToString i \<and>
              (i < 2 ^ 53 \<longrightarrow> numToString i = decimalDigits i) \<and>
              vr_values (rs ! (chunkOffset prepared k + i)) = es ! (chunkOffset prepared k + i) \<and>
              vr_metadata (rs ! (chunkOffset prepared k + i)) =
                \<lparr>title = pa_title (prepared ! k), url = pa_url (prepared ! k),
                 content = pa_chunks (prepared ! k) ! i, chunkIndex = i,
                 articleId = pa_id (prepared ! k)\<rparr>)"
proof -
  let ?ms = "chunkToVectorMap prepared"
  from assms have le: "length es \<le> length ?ms" by simp
  show ?thesis
    unfolding buildVectorRecords_zip [OF le]
    using le by (auto simp: chunkToVectorMap_nth buildVectorId_def numToString_safe)
qed

theorem vector_record_id_article_witness:
  "length [1::nat, 2, 3] \<le> length (allChunkTexts exampleBatch) \<and>
   (\<exists>rs. buildVectorRecords [1::nat, 2, 3] (chunkToVectorMap exampleBatch) = Inr rs \<and>
      vr_id (rs ! 2) = js ''article-8-chunk-0'' \<and>
      vr_values (rs ! 2) = 3 \<and>
      vr_metadata (rs ! 2) =
        \<lparr>title = js ''U'', url = js ''v'', content = js ''c'', chunkIndex = 0, articleId = js ''8''\<rparr>)"
proof -
  have h: "length [1::nat, 2, 3] \<le> length (allChunkTexts exampleBatch)"
    by (simp add: allChunkTexts_def exampleBatch_def)
  have k: "(1::nat) < length exampleBatch \<and> (0::nat) < length (pa_chunks (exampleBatch ! 1)) \<and>
      chunkOffset exampleBatch 1 + 0 < length [1::nat, 2, 3]"
    by (simp add: chunkOffset_def allChunkTexts_def exampleBatch_def)
  have o: "chunkOffset exampleBatch 1 + 0 = 2"
    by (simp add: chunkOffset_def allChunkTexts_def exampleBatch_def)
  have z: "decimalDigits 0 = js ''0''" by (simp add: decimalDigits.simps digitChar_def js_def)
  from vector_record_id_article [OF h] obtain rs where
    rs: "buildVectorRecords [1::nat, 2, 3] (chunkToVectorMap exampleBatch) = Inr rs"
    and all: "\<And>k i. k < length exampleBatch \<and> i < length (pa_chunks (exampleBatch ! k)) \<and>
                  chunkOffset exampleBatch k + i < length [1::nat, 2, 3] \<Longrightarrow>
              vr_id (rs ! (chunkOffset exampleBatch k + i)) =
                js ''article-'' @ pa_id (exampleBatch ! k) @ js ''-chunk-'' @ numToString i \<and>
              (i < 2 ^ 53 \<longrightarrow> numToString i = decimalDigits i) \<and>
              vr_values (rs ! (chunkOffset exampleBatch k + i)) =
                [1::nat, 2, 3] ! (chunkOffset exampleBatch k + i) \<and>
              vr_metadata (rs ! (chunkOffset exampleBatch k + i)) =
                \<lparr>title = pa_title (exampleBatch ! k), url = pa_url (exampleBatch ! k),
                 content = pa_chunks (exampleBatch ! k) ! i, chunkIndex = i,
                 articleId = pa_id (exampleBatch ! k)\<rparr>"
    by blast
  from all [OF k] have
    "vr_id (rs ! 2) = js ''article-8-chunk-0'' \<and> vr_values (rs ! 2) = 3 \<and>
     vr_metadata (rs ! 2) =
       \<lparr>title = js ''U'', url = js ''v'', content = js ''c'', chunkIndex = 0, articleId = js ''8''\<rparr>"
    unfolding o by (simp add: exampleBatch_def z js_def)
  with h rs show ?thesis by blast
qed

text \<open>The identifier written for chunk 0 of article 7 is not \<open>doc-7-chunk-0\<close>.\<close>

theorem vector_id_prefix_counterexample:
  "buildVectorRecords [1::nat] (chunkMappings (js ''7'') (js ''T'') (js ''u'') [js ''a'']) =
     Inr [\<lparr>vr_id = js ''article-7-chunk-0'', vr_values = 1,
           vr_metadata = \<lparr>title = js ''T'', url = js ''u'', content = js ''a'', chunkIndex = 0,
             articleId = js ''7''\<rparr>\<rparr>]
   \<and> js ''article-7-chunk-0'' \<noteq> js ''doc-7-chunk-0''"
  by (simp add: chunkMappings_def buildVectorId_def js_def numToString_safe decimalDigits.simps
      digitChar_def)

section \<open>Properties of the chunker\<close>

lemma chunkByWordsLoop_returns:
  assumes step: "overlapWords < maxWords"
  shows "\<exists>cs. chunkByWordsLoop words maxWords overlapWords i chunks = Some cs"
proof (induction "nat (int (length words) - i)" arbitrary: i chunks rule: less_induct)
  case less
  show ?case
  proof (cases "i < int (length words)")
    case False
    then show ?thesis by (subst chunkByWordsLoop.simps) simp
  next
    case True
    with step have "nat (int (length words) - (i + (maxWords - overlapWords))) < nat (int (length words) - i)"
      by linarith
    from less [OF this] show ?thesis
      using True by (subst chunkByWordsLoop.simps) (simp add: Let_def)
  qed
qed

lemma chunkByWords_returns:
  "(ovl * 3) div 4 < (maxTok * 3) div 4 \<Longrightarrow> \<exists>cs. chunkByWords text maxTok ovl = Some cs"
  unfolding chunkByWords_def Let_def by (rule chunkByWordsLoop_returns)

lemma sentenceLoop_returns:
  assumes step: "(ovl * 3) div 4 < (maxTok * 3) div 4"
  shows "sentenceLoop maxTok ovl sentences (chunks, cur, tok) \<noteq> None"
proof (induction sentences arbitrary: chunks cur tok)
  case Nil
  show ?case by simp
next
  case (Cons sentence rest)
  from chunkByWords_returns [OF step] obtain wc where wc: "chunkByWords sentence maxTok ovl = Some wc"
    by blast
  show ?case
    by (simp add: Let_def wc Cons.IH del: length_greater_0_conv not_None_eq)
qed

lemma chunkText_returns:
  assumes step: "(configOverlap config * 3) div 4 < (configMaxTokens config * 3) div 4"
  shows "\<exists>cs. chunkText text config = Some cs"
proof -
  obtain st where "sentenceLoop (configMaxTokens config) (configOverlap config)
      (splitIntoSentences text) ([], [], 0) = Some st"
    using sentenceLoop_returns [OF step] by blast
  moreover obtain wc where "chunkByWords text (configMaxTokens config) (configOverlap config) = Some wc"
    using chunkByWords_returns [OF step] by blast
  ultimately show ?thesis
    by (cases st) (auto simp add: chunkText_def Let_def simp del: length_greater_0_conv)
qed

text \<open>When the step is not positive the index never reaches the end of the words.\<close>

lemma chunkByWordsLoop_Some_step:
  assumes ret: "chunkByWordsLoop words maxWords overlapWords i chunks = Some cs"
  shows "i < int (length words) \<longrightarrow> overlapWords < maxWords"
proof (rule chunkByWordsLoop.raw_induct
    [where P = "\<lambda>ws mw ow j ch y. j < int (length ws) \<longrightarrow> ow < mw", OF _ ret])
  fix f ws mw ow j ch y
  assume IH: "\<And>ws mw ow j ch y. f ws mw ow j ch = Some y \<Longrightarrow> j < int (length ws) \<longrightarrow> ow < mw"
    and body: "(if j < int (length ws)
      then let chunk = join space (jsSlice ws j (j + mw))
           in f ws mw ow (j + (mw - ow)) (if 0 < length (trim chunk) then ch @ [chunk] else ch)
      else Some ch) = Some y"
  show "j < int (length ws) \<longrightarrow> ow < mw"
  proof (intro impI, rule ccontr)
    assume lt: "j < int (length ws)" and neg: "\<not> ow < mw"
    from body lt obtain ch' where "f ws mw ow (j + (mw - ow)) ch' = Some y"
      by (simp add: Let_def)
    from IH [OF this] lt neg show False by simp
  qed
qed

lemma splitWhitespace_nonempty: "splitWhitespace cur t \<noteq> []"
  by (induction cur t rule: splitWhitespace.induct) auto

lemma chunkByWords_diverges:
  assumes "\<not> (ovl * 3) div 4 < (maxTok * 3) div 4"
  shows "chunkByWords text maxTok ovl = None"
proof (cases "chunkByWords text maxTok ovl")
  case None
  then show ?thesis .
next
  case (Some cs)
  then have "chunkByWordsLoop (splitWhitespace [] text) ((maxTok * 3) div 4) ((ovl * 3) div 4) 0 [] = Some cs"
    by (simp add: chunkByWords_def Let_def)
  from chunkByWordsLoop_Some_step [OF this] splitWhitespace_nonempty [of "[]" "text"] assms
  show ?thesis by simp
qed

lemma join_append:
  "xs \<noteq> [] \<Longrightarrow> ys \<noteq> [] \<Longrightarrow> join sep (xs @ ys) = join sep xs @ sep @ join sep ys"
  by (induction sep xs rule: join.induct) (auto simp: neq_Nil_conv)


lemma suffix_join: "suffix xs ys \<Longrightarrow> xs \<noteq> [] \<Longrightarrow> suffix (join sep xs) (join sep ys)"
proof -
  assume p: "suffix xs ys" and ne: "xs \<noteq> []"
  then obtain zs where ys: "ys = zs @ xs" by (auto simp: suffix_def)
  show ?thesis
  proof (cases "zs = []")
    case True
    with ys show ?thesis by simp
  next
    case False
    with ne ys have "join sep ys = (join sep zs @ sep) @ join sep xs" by (simp add: join_append)
    then show ?thesis unfolding suffix_def by blast
  qed
qed

lemma suffix_last_join: "xs \<noteq> [] \<Longrightarrow> suffix (last xs) (join sep xs)"
  using suffix_join [of "[last xs]" xs sep] by (simp add: suffix_def) (metis append_butlast_last_id)

lemma set_join: "x \<in> set xs \<Longrightarrow> set x \<subseteq> set (join sep xs)"
  by (induction sep xs rule: join.induct) auto

text \<open>A text is blank for \<open>trim\<close> exactly when it is all white space.\<close>

lemma trim_empty_iff: "trim s = [] \<longleftrightarrow> (\<forall>c \<in> set s. isSpace c)"
proof
  assume "trim s = []"
  then have "\<forall>c \<in> set (dropWhile isSpace s). isSpace c"
    by (simp add: trim_def dropWhile_eq_Nil_conv)
  then have "dropWhile isSpace s = []"
    by (metis hd_dropWhile list.set_sel(1))
  then show "\<forall>c \<in> set s. isSpace c" by (simp add: dropWhile_eq_Nil_conv)
next
  assume "\<forall>c \<in> set s. isSpace c"
  then have d: "dropWhile isSpace s = []" by simp
  show "trim s = []" unfolding trim_def d by simp
qed

lemma trim_join_nonblank:
  assumes "x \<in> set xs" "length (trim x) > 0"
  shows "length (trim (join sep xs)) > 0"
proof -
  from assms(2) obtain c where "c \<in> set x" "\<not> isSpace c" by (auto simp: trim_empty_iff)
  with set_join [OF assms(1), of sep] have "\<not> (\<forall>c \<in> set (join sep xs). isSpace c)" by blast
  then show ?thesis by (simp add: trim_empty_iff)
qed






























text \<open>A stretch without white space holds no sentence boundary.\<close>

lemma splitAtBoundaries_block:
  "\<forall>c \<in> set xs. \<not> isSpace c \<Longrightarrow> xs \<noteq> [] \<Longrightarrow>
   splitAtBoundaries a cur (xs @ rest) = splitAtBoundaries (isSentenceEnd (last xs)) (cur @ xs) rest"
proof (induction xs arbitrary: a cur)
  case Nil
  then show ?case by simp
next
  case (Cons x xs)
  show ?case
  proof (cases "xs = []")
    case True
    with Cons.prems show ?thesis by simp
  next
    case False
    with Cons show ?thesis by simp
  qed
qed

lemma trim_id: "s \<noteq> [] \<Longrightarrow> \<not> isSpace (hd s) \<Longrightarrow> \<not> isSpace (last s) \<Longrightarrow> trim s = s"
proof -
  assume ne: "s \<noteq> []" and h: "\<not> isSpace (hd s)" and l: "\<not> isSpace (last s)"
  from ne h have d: "dropWhile isSpace s = s" by (cases s) auto
  from ne l have "dropWhile isSpace (rev s) = rev s" by (cases "rev s") (auto simp: hd_rev)
  with d show ?thesis by (simp add: trim_def)
qed

lemma longSentence_facts:
  assumes "\<not> isSpace c"
  shows "\<forall>x \<in> set (longSentence c). \<not> isSpace x" "longSentence c \<noteq> []"
    "last (longSentence c) = 0x2E" "hd (longSentence c) = c" "length (longSentence c) = 1400"
    "estimateTokens (longSentence c) = 400" "trim (longSentence c) = longSentence c"
proof -
  show a: "\<forall>x \<in> set (longSentence c). \<not> isSpace x" using assms
    by (auto simp: longSentence_def isSpace_def)
  show b: "longSentence c \<noteq> []" by (simp add: longSentence_def)
  show l: "last (longSentence c) = 0x2E" by (simp add: longSentence_def)
  show h: "hd (longSentence c) = c" by (simp add: longSentence_def)
  show n: "length (longSentence c) = 1400" by (simp add: longSentence_def)
  show "estimateTokens (longSentence c) = 400" by (simp add: estimateTokens_def n)
  show "trim (longSentence c) = longSentence c"
    using b assms by (intro trim_id) (simp_all add: h l isSpace_def)
qed

lemma short_facts:
  "\<forall>x \<in> set (js ''Cc.''). \<not> isSpace x" "estimateTokens (js ''Cc.'') = 1" "trim (js ''Cc.'') = js ''Cc.''"
  by (simp_all add: js_def isSpace_def estimateTokens_def trim_def)

lemma capitals: "\<not> isSpace 0x41" "\<not> isSpace 0x42" "isUpper 0x42" "isUpper 0x43" "isSpace 0x20"
  "isSentenceEnd 0x2E"
  by (simp_all add: isSpace_def isUpper_def isSentenceEnd_def)

lemma splitAtBoundaries_boundary:
  "isUpper u \<Longrightarrow> \<not> isSpace u \<Longrightarrow>
   splitAtBoundaries True cur (0x20 # u # r) = cur # splitAtBoundaries False [] (u # r)"
  by (simp add: capitals)

lemma longText_sentences:
  "splitIntoSentences longText = [longSentence 0x41, longSentence 0x42, js ''Cc.'']"
proof -
  let ?A = "longSentence 0x41" and ?B = "longSentence 0x42" and ?C = "js ''Cc.''"
  note fa = longSentence_facts [OF capitals(1)] and fb = longSentence_facts [OF capitals(2)]
  obtain rb where rb: "?B = 0x42 # rb" by (simp add: longSentence_def)
  obtain rc where rc: "?C = 0x43 # rc" by (simp add: js_def)
  have nc: "\<not> isSpace 0x43" by (simp add: isSpace_def)
  have s3: "splitAtBoundaries False [] ?C = [?C]"
    using splitAtBoundaries_block [OF short_facts(1), of False "[]" "[]"] by (simp add: js_def)
  have "splitAtBoundaries False [] (?B @ space @ ?C) =
      splitAtBoundaries True ?B (0x20 # ?C)"
    using splitAtBoundaries_block [OF fb(1,2), of False "[]" "space @ ?C"]
    by (simp add: fb(3) capitals space_def)
  also have "\<dots> = ?B # splitAtBoundaries False [] ?C"
    unfolding rc by (rule splitAtBoundaries_boundary [OF capitals(4) nc])
  finally have s2: "splitAtBoundaries False [] (?B @ space @ ?C) = [?B, ?C]" by (simp add: s3)
  have "splitAtBoundaries False [] longText =
      splitAtBoundaries True ?A (0x20 # ?B @ space @ ?C)"
    unfolding longText_def
    using splitAtBoundaries_block [OF fa(1,2), of False "[]" "space @ ?B @ space @ ?C"]
    by (simp add: fa(3) capitals space_def)
  also have "\<dots> = ?A # splitAtBoundaries False [] (?B @ space @ ?C)"
    unfolding rb append_Cons by (rule splitAtBoundaries_boundary [OF capitals(3,2)])
  finally have "splitAtBoundaries False [] longText = [?A, ?B, ?C]" by (simp add: s2)
  then show ?thesis
    by (simp add: splitIntoSentences_def fa(2,7) fb(2,7) short_facts(3)) (simp add: js_def)
qed

lemma longText_size: "estimateTokens longText = 802" "length (trim longText) > 0"
proof -
  note fa = longSentence_facts [OF capitals(1)] and fb = longSentence_facts [OF capitals(2)]
  show "estimateTokens longText = 802"
    by (simp add: estimateTokens_def longText_def fa(5) fb(5) space_def js_def)
  have "0x41 \<in> set longText" by (simp add: longText_def longSentence_def)
  with capitals(1) have "\<not> (\<forall>c \<in> set longText. isSpace c)" by blast
  then show "length (trim longText) > 0" by (simp add: trim_empty_iff)
qed

lemma longText_chunks:
  "chunkText longText defaultConfig =
     Some [longSentence 0x41 @ space @ longSentence 0x42, js ''Cc.'']"
proof -
  let ?A = "longSentence 0x41" and ?B = "longSentence 0x42" and ?C = "js ''Cc.''"
  note fa = longSentence_facts [OF capitals(1)] and fb = longSentence_facts [OF capitals(2)]
  have cfg: "configMaxTokens defaultConfig = 800" "configOverlap defaultConfig = 200"
    "configPreserveSentences defaultConfig"
    by (simp_all add: defaultConfig_def configMaxTokens_def configOverlap_def
        configPreserveSentences_def)
  have ov: "getOverlapSentences [?A, ?B] 200 = []"
    by (simp add: getOverlapSentences_def Let_def fb(6))
  have e0: "estimateTokens [] = 0" by (simp add: estimateTokens_def)
  have loop: "sentenceLoop 800 200 [?A, ?B, ?C] ([], [], 0) =
      Some ([?A @ space @ ?B], [?C], 1)"
    by (simp add: Let_def fa(2,6) fb(2,6) short_facts(2) ov e0)
  have ne: "longText \<noteq> []" by (simp add: longText_def longSentence_def)
  have t1: "length (trim (?A @ space @ ?B)) > 0"
    using trim_join_nonblank [of ?A "[?A, ?B]" space] by (simp add: fa(2,7))
  have t2: "length (trim ?C) > 0" unfolding short_facts(3) by (simp add: js_def)
  have keep: "configPreserveSentences defaultConfig = True" using cfg(3) by simp
  show ?thesis
    using longText_size ne t1 t2
    by (simp only: chunkText_def Let_def cfg(1,2) keep longText_sentences loop) simp
qed

lemma longText_first_chunk: "estimateTokens (longSentence 0x41 @ space @ longSentence 0x42) = 801"
  by (simp add: estimateTokens_def longSentence_def space_def)

text \<open>
  Claim C2 fails on the code. With a chunk size of 4 tokens, three sentences of 2 tokens each
  are accumulated two by two: \<open>currentTokens\<close> adds up the sentences (2 + 2 = 4, not over
  the limit) and leaves out the separator that \<open>join\<close> inserts, so both chunks are
  estimated at 5 tokens. With the default configuration, two sentences of 400 tokens each are
  accumulated into one chunk estimated at 801 tokens, over the limit of 800.
\<close>

theorem chunk_exceeds_maxTokens:
  "chunkText (js ''Aaaaaa. Bbbbbb. Cccccc.'')
     \<lparr>maxTokens = Some 4, overlap = Some 2, preserveSentences = Some True\<rparr> =
     Some [js ''Aaaaaa. Bbbbbb.'', js ''Bbbbbb. Cccccc.''] \<and>
   splitIntoSentences (js ''Aaaaaa. Bbbbbb. Cccccc.'') = [js ''Aaaaaa.'', js ''Bbbbbb.'', js ''Cccccc.''] \<and>
   map estimateTokens [js ''Aaaaaa.'', js ''Bbbbbb.'', js ''Cccccc.''] = [2, 2, 2] \<and>
   estimateTokens (js ''Aaaaaa. Bbbbbb.'') = 5 \<and>
   estimateTokens (js ''Bbbbbb. Cccccc.'') = 5 \<and>
   chunkText longText defaultConfig =
     Some [longSentence 0x41 @ space @ longSentence 0x42, js ''Cc.''] \<and>
   splitIntoSentences longText = [longSentence 0x41, longSentence 0x42, js ''Cc.''] \<and>
   estimateTokens (longSentence 0x41) = 400 \<and>
   estimateTokens (longSentence 0x42) = 400 \<and>
   estimateTokens (longSentence 0x41 @ space @ longSentence 0x42) = 801"
proof -
  have small: "chunkText (js ''Aaaaaa. Bbbbbb. Cccccc.'')
     \<lparr>maxTokens = Some 4, overlap = Some 2, preserveSentences = Some True\<rparr> =
     Some [js ''Aaaaaa. Bbbbbb.'', js ''Bbbbbb. Cccccc.''] \<and>
   splitIntoSentences (js ''Aaaaaa. Bbbbbb. Cccccc.'') = [js ''Aaaaaa.'', js ''Bbbbbb.'', js ''Cccccc.''] \<and>
   map estimateTokens [js ''Aaaaaa.'', js ''Bbbbbb.'', js ''Cccccc.''] = [2, 2, 2] \<and>
   estimateTokens (js ''Aaaaaa. Bbbbbb.'') = 5 \<and>
   estimateTokens (js ''Bbbbbb. Cccccc.'') = 5"
    by code_simp
  note fa = longSentence_facts [OF capitals(1)] and fb = longSentence_facts [OF capitals(2)]
  from small longText_chunks longText_sentences fa(6) fb(6) longText_first_chunk
  show ?thesis by (intro conjI) (erule conjunct1 | assumption | simp)+
qed

text \<open>
  Claim C10. \<open>chunkText\<close> returns a list for every text whenever
  \<open>floor(maxTokens * 0.75) > floor(overlap * 0.75)\<close>, which the default configuration
  satisfies. The condition is needed: when it fails the loop of \<open>chunkByWords\<close> never
  ends, whatever the text, and so \<open>chunkText\<close> does not return on a non-blank text
  over the chunk size when sentences are not preserved.
\<close>

theorem chunkText_terminates:
  "((configOverlap config * 3) div 4 < (configMaxTokens config * 3) div 4 \<longrightarrow>
      (\<exists>cs. chunkText t config = Some cs))
   \<and> (\<exists>cs. chunkText t defaultConfig = Some cs)
   \<and> (\<not> (ovl * 3) div 4 < (maxTok * 3) div 4 \<longrightarrow> chunkByWords t maxTok ovl = None)
   \<and> (\<not> (configOverlap config * 3) div 4 < (configMaxTokens config * 3) div 4 \<and>
        \<not> configPreserveSentences config \<and> length (trim t) > 0 \<and>
        configMaxTokens config < estimateTokens t \<longrightarrow> chunkText t config = None)"
proof (intro conjI impI)
  assume "(configOverlap config * 3) div 4 < (configMaxTokens config * 3) div 4"
  then show "\<exists>cs. chunkText t config = Some cs" by (rule chunkText_returns)
next
  show "\<exists>cs. chunkText t defaultConfig = Some cs"
    by (rule chunkText_returns) (simp add: defaultConfig_def configOverlap_def configMaxTokens_def)
next
  assume "\<not> (ovl * 3) div 4 < (maxTok * 3) div 4"
  then show "chunkByWords t maxTok ovl = None" by (rule chunkByWords_diverges)
next
  assume h: "\<not> (configOverlap config * 3) div 4 < (configMaxTokens config * 3) div 4 \<and>
        \<not> configPreserveSentences config \<and> length (trim t) > 0 \<and>
        configMaxTokens config < estimateTokens t"
  then have "chunkByWords t (configMaxTokens config) (configOverlap config) = None"
    by (intro chunkByWords_diverges) simp
  with h show "chunkText t config = None"
    by (auto simp: chunkText_def Let_def trim_def)
qed

theorem chunkText_terminates_witness:
  "(configOverlap \<lparr>maxTokens = Some 4, overlap = Some 2, preserveSentences = Some False\<rparr> * 3) div 4
     < (configMaxTokens \<lparr>maxTokens = Some 4, overlap = Some 2, preserveSentences = Some False\<rparr> * 3) div 4 \<and>
   (\<exists>cs. chunkText (js ''aa bb cc dd ee ff gg hh'')
            \<lparr>maxTokens = Some 4, overlap = Some 2, preserveSentences = Some False\<rparr> = Some cs) \<and>
   \<not> ((5::int) * 3) div 4 < (4 * 3) div 4 \<and>
   chunkByWords (js ''aa bb cc dd ee ff gg hh'') 4 5 = None \<and>
   \<not> configPreserveSentences \<lparr>maxTokens = Some 4, overlap = Some 5, preserveSentences = Some False\<rparr> \<and>
   length (trim (js ''aa bb cc dd ee ff gg hh'')) > 0 \<and>
   configMaxTokens \<lparr>maxTokens = Some 4, overlap = Some 5, preserveSentences = Some False\<rparr>
     < estimateTokens (js ''aa bb cc dd ee ff gg hh'') \<and>
   chunkText (js ''aa bb cc dd ee ff gg hh'')
     \<lparr>maxTokens = Some 4, overlap = Some 5, preserveSentences = Some False\<rparr> = None"
proof -
  let ?t = "js ''aa bb cc dd ee ff gg hh''"
  let ?c = "\<lparr>maxTokens = Some 4, overlap = Some 2, preserveSentences = Some False\<rparr>"
  let ?d = "\<lparr>maxTokens = Some 4, overlap = Some 5, preserveSentences = Some False\<rparr>"
  have h1: "(configOverlap ?c * 3) div 4 < (configMaxTokens ?c * 3) div 4"
    by (simp add: configOverlap_def configMaxTokens_def)
  have h2: "\<not> ((5::int) * 3) div 4 < (4 * 3) div 4" by simp
  have h3: "\<not> (configOverlap ?d * 3) div 4 < (configMaxTokens ?d * 3) div 4"
    by (simp add: configOverlap_def configMaxTokens_def)
  have h4: "\<not> configPreserveSentences ?d" by (simp add: configPreserveSentences_def)
  have h5: "length (trim ?t) > 0" by code_simp
  have h6: "configMaxTokens ?d < estimateTokens ?t" by code_simp
  from chunkText_terminates [of ?c ?t 5 4] h1 h2
  have a: "\<exists>cs. chunkText ?t ?c = Some cs" and b: "chunkByWords ?t 4 5 = None" by blast+
  from chunkText_terminates [of ?d ?t 5 4] h3 h4 h5 h6
  have c: "chunkText ?t ?d = None" by blast
  from h1 a h2 b h4 h5 h6 c show ?thesis by (intro conjI)
qed

section \<open>Properties of the summarizer\<close>

lemma lastIndexOf_absent: "c \<notin> set s \<Longrightarrow> lastIndexOf s c = - 1"
  by (simp add: lastIndexOf_def)

lemma takeWhile_shorter:
  assumes "x \<in> set xs" "\<not> P x"
  shows "length (takeWhile P xs) < length xs"
proof -
  from assms have "dropWhile P xs \<noteq> []" by (auto simp: dropWhile_eq_Nil_conv)
  moreover have "length (takeWhile P xs) + length (dropWhile P xs) = length xs"
    by (metis length_append takeWhile_dropWhile_id)
  ultimately show ?thesis by (cases "dropWhile P xs") auto
qed

lemma takeWhile_before:
  assumes "j < length (takeWhile P xs)"
  shows "P (xs ! j)"
proof -
  from assms have "takeWhile P xs ! j \<in> set (takeWhile P xs)" by (rule nth_mem)
  then have "P (takeWhile P xs ! j)" by (rule set_takeWhileD [THEN conjunct2])
  with assms show ?thesis by (simp add: takeWhile_nth)
qed

lemma lastIndexOf_present:
  assumes "c \<in> set s"
  shows "\<exists>p. lastIndexOf s c = int p \<and> p < length s \<and> s ! p = c \<and>
             (\<forall>j. p < j \<and> j < length s \<longrightarrow> s ! j \<noteq> c)"
proof -
  let ?n = "length (takeWhile (\<lambda>x. x \<noteq> c) (rev s))"
  from assms have "?n < length (rev s)" by (intro takeWhile_shorter [of c]) simp_all
  then have n: "?n < length s" by simp
  then have hit: "rev s ! ?n = c"
    using nth_length_takeWhile [of "\<lambda>x. x \<noteq> c" "rev s"] by simp
  define p where "p = length s - 1 - ?n"
  from n have p: "p < length s" by (simp add: p_def)
  have "lastIndexOf s c = int p" using assms n by (simp add: lastIndexOf_def p_def)
  moreover from hit n have "s ! p = c" by (simp add: rev_nth p_def)
  moreover have "s ! j \<noteq> c" if "p < j" "j < length s" for j
  proof -
    from that n have lt: "length s - 1 - j < ?n" by (simp add: p_def)
    then have "rev s ! (length s - 1 - j) \<noteq> c" by (rule takeWhile_before)
    with that show ?thesis by (simp add: rev_nth)
  qed
  ultimately show ?thesis using p by blast
qed

lemma jsSlice_from_0: "0 \<le> k \<Longrightarrow> jsSlice xs 0 k = take (nat k) xs"
  by (simp add: jsSlice_def relativeIndex_def Let_def min_def)

lemma long_message: "6000 < estimateTokens message \<Longrightarrow> 21000 < length message"
  unfolding estimateTokens_def by linarith

text \<open>The fallback text for a message of more than 6000 estimated tokens.\<close>

lemma truncateToTokenLimit_6000:
  assumes big: "6000 < estimateTokens message"
  shows "(\<exists>p. 16800 < p \<and> p < 21000 \<and> message ! p = 0x2E \<and>
            (\<forall>j. p < j \<and> j < 21000 \<longrightarrow> message ! j \<noteq> 0x2E) \<and>
            truncateToTokenLimit message 6000 = take (Suc p) message)
       \<or> ((\<forall>j. 16800 < j \<and> j < 21000 \<longrightarrow> message ! j \<noteq> 0x2E) \<and>
            truncateToTokenLimit message 6000 = take 21000 message @ js ''...'')"
proof -
  let ?t = "take 21000 message"
  from big have len: "21000 < length message" by (rule long_message)
  then have lt: "length ?t = 21000" by simp
  have nth: "?t ! j = message ! j" if "j < 21000" for j using that by simp
  have tr: "truncateToTokenLimit message 6000 =
      (if 5 * lastIndexOf ?t 0x2E > 84000 then jsSlice ?t 0 (lastIndexOf ?t 0x2E + 1)
       else ?t @ js ''...'')"
    using big by (simp add: truncateToTokenLimit_def Let_def jsSlice_from_0)
  show ?thesis
  proof (cases "0x2E \<in> set ?t")
    case False
    then have "\<forall>j < 21000. ?t ! j \<noteq> 0x2E" using lt by (metis nth_mem)
    then have "\<forall>j. 16800 < j \<and> j < 21000 \<longrightarrow> message ! j \<noteq> 0x2E" by (simp add: nth)
    moreover from False have "truncateToTokenLimit message 6000 = ?t @ js ''...''"
      by (simp add: tr lastIndexOf_absent)
    ultimately show ?thesis by blast
  next
    case True
    from lastIndexOf_present [OF True] obtain p where
      p: "lastIndexOf ?t 0x2E = int p" "p < 21000" "?t ! p = 0x2E"
        "\<forall>j. p < j \<and> j < 21000 \<longrightarrow> ?t ! j \<noteq> 0x2E"
      unfolding lt by blast
    from p(2,3) have mp: "message ! p = 0x2E" by (simp add: nth)
    from p(4) have after: "\<forall>j. p < j \<and> j < 21000 \<longrightarrow> message ! j \<noteq> 0x2E" by (simp add: nth)
    show ?thesis
    proof (cases "16800 < p")
      case True
      then have "truncateToTokenLimit message 6000 = jsSlice ?t 0 (int p + 1)"
        by (simp add: tr p(1))
      also have "\<dots> = take (Suc p) ?t" by (simp add: jsSlice_from_0 nat_add_distrib)
      also have "\<dots> = take (Suc p) message" using p(2) by (simp add: min_def)
      finally show ?thesis using True p(2) mp after by blast
    next
      case False
      then have "truncateToTokenLimit message 6000 = ?t @ js ''...''"
        by (simp add: tr p(1))
      moreover from False after have "\<forall>j. 16800 < j \<and> j < 21000 \<longrightarrow> message ! j \<noteq> 0x2E" by simp
      ultimately show ?thesis by blast
    qed
  qed
qed

lemma twoStageSummarization_returns: "twoStageSummarization model t k \<noteq> None"
proof -
  let ?c = "\<lparr>maxTokens = Some 6000, overlap = Some 200, preserveSentences = Some True\<rparr>"
  have "(configOverlap ?c * 3) div 4 < (configMaxTokens ?c * 3) div 4"
    by (simp add: configOverlap_def configMaxTokens_def)
  from chunkText_returns [OF this] obtain cs where "chunkText t ?c = Some cs" by blast
  then show ?thesis
    by (simp add: twoStageSummarization_def Let_def split: sum.splits prod.splits)
qed

lemma summarizeAttempt_returns: "summarizeAttempt model message k \<noteq> None"
  using twoStageSummarization_returns [of model message k]
  by (simp add: summarizeAttempt_def Let_def split: sum.splits prod.splits)

lemma summarizeChatMessage_returns:
  "\<exists>r calls. summarizeChatMessage model message k = Some (Inr r, calls)"
proof -
  let ?k = "case k of None \<Rightarrow> 2000 | Some n \<Rightarrow> n"
  from summarizeAttempt_returns [of model message ?k]
  obtain res calls where "summarizeAttempt model message ?k = Some (res, calls)" by auto
  then show ?thesis
    by (cases res) (simp_all add: summarizeChatMessage_def Let_def)
qed

lemma promiseAll_isl: "isl (promiseAll rs) \<longleftrightarrow> (\<exists>r \<in> set rs. isl r)"
  by (induction rs rule: promiseAll.induct) (auto split: sum.splits)

lemma summarizeText_fst_isl: "isl (fst (summarizeText model t n)) = isl (model t n)"
  by (simp add: summarizeText_def split: sum.splits option.splits)

text \<open>
  The requests of the two stages: one for every chunk, then, when all of them are answered,
  one for the joined summaries. The attempt fails exactly when one of its requests fails.
\<close>

lemma twoStageSummarization_calls:
  assumes ts: "twoStageSummarization model txt k = Some (res, calls)"
  shows "calls \<noteq> [] \<and> (list_ex (\<lambda>(t, n). isl (model t n)) calls \<longleftrightarrow> isl res) \<and>
         (\<exists>chunks. chunkText txt
              \<lparr>maxTokens = Some 6000, overlap = Some 200, preserveSentences = Some True\<rparr> = Some chunks \<and>
            (calls = map (\<lambda>c. (c, 500)) chunks \<or>
             (\<exists>merged. calls = map (\<lambda>c. (c, 500)) chunks @ [(merged, k)])))"
proof -
  let ?cfg = "\<lparr>maxTokens = Some 6000, overlap = Some 200, preserveSentences = Some True\<rparr>"
  from ts obtain chunks where ch: "chunkText txt ?cfg = Some chunks"
    by (auto simp: twoStageSummarization_def split: option.splits)
  let ?answers = "map (\<lambda>chunk. summarizeText model chunk 500) chunks"
  let ?cc = "map (\<lambda>c. (c, 500::int)) chunks"
  have cc: "concat (map snd ?answers) = ?cc"
    by (induction chunks) (simp_all add: summarizeText_def)
  have fails: "isl (promiseAll (map fst ?answers)) \<longleftrightarrow> (\<exists>c \<in> set chunks. isl (model c 500))"
    by (simp add: promiseAll_isl summarizeText_fst_isl)
  have ex: "list_ex (\<lambda>(t, n). isl (model t n)) ?cc \<longleftrightarrow> (\<exists>c \<in> set chunks. isl (model c 500))"
    by (simp add: list_ex_iff)
  show ?thesis
  proof (cases "promiseAll (map fst ?answers)")
    case (Inl e)
    with ts ch cc have r: "res = Inl e" "calls = ?cc"
      by (simp_all add: twoStageSummarization_def Let_def)
    from Inl fails have f: "\<exists>c \<in> set chunks. isl (model c 500)" by simp
    then have "chunks \<noteq> []" by auto
    with r ex f ch show ?thesis by simp
  next
    case (Inr sums)
    let ?merged = "join [0x0A, 0x0A] sums"
    from Inr fails have none: "\<not> (\<exists>c \<in> set chunks. isl (model c 500))" by simp
    from ts ch cc Inr have c: "calls = ?cc @ [(?merged, k)]"
      by (auto simp: twoStageSummarization_def Let_def summarizeText_def
          split: sum.splits option.splits)
    from ts ch cc Inr have r: "isl res \<longleftrightarrow> isl (model ?merged k)"
      by (auto simp: twoStageSummarization_def Let_def summarizeText_def
          split: sum.splits option.splits)
    from c ex none r ch show ?thesis by simp
  qed
qed

lemma summarizeAttempt_calls:
  assumes at: "summarizeAttempt model message k = Some (res, calls)"
  shows "calls \<noteq> [] \<and> (list_ex (\<lambda>(t, n). isl (model t n)) calls \<longleftrightarrow> isl res) \<and>
         (estimateTokens message \<le> 20000 \<longrightarrow> calls = [(message, k)]) \<and>
         (20000 < estimateTokens message \<longrightarrow>
            (\<exists>chunks. chunkText message
                 \<lparr>maxTokens = Some 6000, overlap = Some 200, preserveSentences = Some True\<rparr> =
                 Some chunks \<and>
               (calls = map (\<lambda>c. (c, 500)) chunks \<or>
                (\<exists>merged. calls = map (\<lambda>c. (c, 500)) chunks @ [(merged, k)]))))"
proof (cases "20000 < estimateTokens message")
  case True
  with at have "twoStageSummarization model message k = Some (res, calls)"
    by (simp add: summarizeAttempt_def)
  from twoStageSummarization_calls [OF this] True show ?thesis by simp
next
  case False
  with at show ?thesis
    by (auto simp: summarizeAttempt_def summarizeText_def split: sum.splits option.splits)
qed

text \<open>
  Claim C5. When a request that \<open>summarizeChatMessage\<close> sends to the model for a message
  of more than 6000 estimated tokens throws, be it the single request of a message of at most
  20000 tokens, the request for a chunk or the final request of the two stages, the error is not
  passed on: the result has as summary the message cut to its first 21000 code units
  (\<open>floor(6000 * 3.5)\<close>), cut back to just after the last period when that period lies in
  the final 20 percent of the window (at an index above 16800), and followed by an ellipsis
  otherwise. Whatever the model does, \<open>summarizeChatMessage\<close> returns a result and never
  an error. \<open>calls\<close> are the requests sent: at least one for such a message, the message
  itself with \<open>maxOutputTokens\<close> up to 20000 tokens, and above every chunk with 500
  tokens, followed when all of them are answered by the joined summaries with
  \<open>maxOutputTokens\<close>.
\<close>

theorem summarize_failure_falls_back:
  "\<exists>r calls. summarizeChatMessage model message k = Some (Inr r, calls) \<and>
     (6000 < estimateTokens message \<longrightarrow> calls \<noteq> []) \<and>
     (6000 < estimateTokens message \<and> estimateTokens message \<le> 20000 \<longrightarrow>
        calls = [(message, case k of None \<Rightarrow> 2000 | Some n \<Rightarrow> n)]) \<and>
     (20000 < estimateTokens message \<longrightarrow>
        (\<exists>chunks. chunkText message
             \<lparr>maxTokens = Some 6000, overlap = Some 200, preserveSentences = Some True\<rparr> =
             Some chunks \<and>
           (calls = map (\<lambda>c. (c, 500)) chunks \<or>
            (\<exists>merged. calls = map (\<lambda>c. (c, 500)) chunks @
               [(merged, case k of None \<Rightarrow> 2000 | Some n \<Rightarrow> n)])))) \<and>
     (6000 < estimateTokens message \<and> list_ex (\<lambda>(t, n). isl (model t n)) calls \<longrightarrow>
        originalTokens r = estimateTokens message \<and>
        summaryTokens r = estimateTokens (summary r) \<and>
        ((\<exists>p. 16800 < p \<and> p < 21000 \<and> message ! p = 0x2E \<and>
              (\<forall>j. p < j \<and> j < 21000 \<longrightarrow> message ! j \<noteq> 0x2E) \<and>
              summary r = take (Suc p) message)
         \<or> ((\<forall>j. 16800 < j \<and> j < 21000 \<longrightarrow> message ! j \<noteq> 0x2E) \<and>
              summary r = take 21000 message @ js ''...'')))"
proof (cases "6000 < estimateTokens message")
  case False
  then show ?thesis by (simp add: summarizeChatMessage_def Let_def)
next
  case True
  let ?k = "case k of None \<Rightarrow> 2000 | Some n \<Rightarrow> n"
  from summarizeAttempt_returns [of model message ?k]
  obtain res calls where at: "summarizeAttempt model message ?k = Some (res, calls)" by auto
  note c = summarizeAttempt_calls [OF at]
  let ?f = "\<lparr>summary = truncateToTokenLimit message 6000, originalTokens = estimateTokens message,
             summaryTokens = estimateTokens (truncateToTokenLimit message 6000)\<rparr>"
  show ?thesis
  proof (cases res)
    case (Inl e)
    with at True have "summarizeChatMessage model message k = Some (Inr ?f, calls)"
      by (simp add: summarizeChatMessage_def Let_def)
    with c truncateToTokenLimit_6000 [OF True] show ?thesis
      by (intro exI [of _ ?f] exI [of _ calls]) simp
  next
    case (Inr r)
    with at True have "summarizeChatMessage model message k = Some (Inr r, calls)"
      by (simp add: summarizeChatMessage_def Let_def)
    with c Inr show ?thesis
      by (intro exI [of _ r] exI [of _ calls]) simp
  qed
qed

theorem summarize_failure_falls_back_witness:
  "6000 < estimateTokens (replicate 70001 (0x61 :: jschar)) \<and>
   20000 < estimateTokens (replicate 70001 (0x61 :: jschar)) \<and>
   (\<exists>r calls. summarizeChatMessage failingModel (replicate 70001 (0x61 :: jschar)) None = Some (Inr r, calls) \<and>
      list_ex (\<lambda>(t, n). isl (failingModel t n)) calls \<and>
      summary r = replicate 21000 (0x61 :: jschar) @ js ''...'') \<and>
   6000 < estimateTokens (replicate 21001 (0x61 :: jschar)) \<and>
   estimateTokens (replicate 21001 (0x61 :: jschar)) \<le> 20000 \<and>
   (\<exists>r. summarizeChatMessage failingModel (replicate 21001 (0x61 :: jschar)) None =
           Some (Inr r, [(replicate 21001 (0x61 :: jschar), 2000)]) \<and>
      isl (failingModel (replicate 21001 (0x61 :: jschar)) 2000) \<and>
      summary r = replicate 21000 (0x61 :: jschar) @ js ''...'')"
proof -
  have fall: "summary r = replicate 21000 (0x61 :: jschar) @ js ''...''"
    if big: "6000 < estimateTokens (replicate n (0x61 :: jschar))" and "calls \<noteq> []"
      and imp: "6000 < estimateTokens (replicate n (0x61 :: jschar)) \<and>
          list_ex (\<lambda>(t, n). isl (failingModel t n)) calls \<longrightarrow>
          originalTokens r = estimateTokens (replicate n (0x61 :: jschar)) \<and>
          summaryTokens r = estimateTokens (summary r) \<and>
          ((\<exists>p. 16800 < p \<and> p < 21000 \<and> replicate n (0x61 :: jschar) ! p = (0x2E :: jschar) \<and>
                (\<forall>j. p < j \<and> j < 21000 \<longrightarrow> replicate n (0x61 :: jschar) ! j \<noteq> (0x2E :: jschar)) \<and>
                summary r = take (Suc p) (replicate n (0x61 :: jschar)))
           \<or> ((\<forall>j. 16800 < j \<and> j < 21000 \<longrightarrow> replicate n (0x61 :: jschar) ! j \<noteq> (0x2E :: jschar)) \<and>
                summary r = take 21000 (replicate n (0x61 :: jschar)) @ js ''...''))"
    for r :: SummaryResult and calls :: "modelCall list" and n
  proof -
    from big have len: "21000 < n" using long_message [OF big] by simp
    from \<open>calls \<noteq> []\<close> have "list_ex (\<lambda>(t, n). isl (failingModel t n)) calls"
      by (cases calls) (simp_all add: failingModel_def split: prod.splits)
    with big imp have alt:
      "(\<exists>p. 16800 < p \<and> p < 21000 \<and> replicate n (0x61 :: jschar) ! p = (0x2E :: jschar) \<and>
                (\<forall>j. p < j \<and> j < 21000 \<longrightarrow> replicate n (0x61 :: jschar) ! j \<noteq> (0x2E :: jschar)) \<and>
                summary r = take (Suc p) (replicate n (0x61 :: jschar)))
           \<or> ((\<forall>j. 16800 < j \<and> j < 21000 \<longrightarrow> replicate n (0x61 :: jschar) ! j \<noteq> (0x2E :: jschar)) \<and>
                summary r = take 21000 (replicate n (0x61 :: jschar)) @ js ''...'')" by blast
    have "replicate n (0x61 :: jschar) ! p \<noteq> (0x2E :: jschar)" if "p < 21000" for p using that len by simp
    with alt have "summary r = take 21000 (replicate n (0x61 :: jschar)) @ js ''...''" by blast
    with len show ?thesis by (simp add: min_def)
  qed
  have b1: "6000 < estimateTokens (replicate 70001 (0x61 :: jschar))" "20000 < estimateTokens (replicate 70001 (0x61 :: jschar))"
    by (simp_all add: estimateTokens_def)
  have b2: "6000 < estimateTokens (replicate 21001 (0x61 :: jschar))" "estimateTokens (replicate 21001 (0x61 :: jschar)) \<le> 20000"
    by (simp_all add: estimateTokens_def)
  from summarize_failure_falls_back [of failingModel "replicate 70001 (0x61 :: jschar)" None] b1
  obtain r calls where
    r: "summarizeChatMessage failingModel (replicate 70001 (0x61 :: jschar)) None = Some (Inr r, calls)"
    and ne: "calls \<noteq> []"
    and imp: "6000 < estimateTokens (replicate 70001 (0x61 :: jschar)) \<and>
          list_ex (\<lambda>(t, n). isl (failingModel t n)) calls \<longrightarrow>
          originalTokens r = estimateTokens (replicate 70001 (0x61 :: jschar)) \<and>
          summaryTokens r = estimateTokens (summary r) \<and>
          ((\<exists>p. 16800 < p \<and> p < 21000 \<and> replicate 70001 (0x61 :: jschar) ! p = (0x2E :: jschar) \<and>
                (\<forall>j. p < j \<and> j < 21000 \<longrightarrow> replicate 70001 (0x61 :: jschar) ! j \<noteq> (0x2E :: jschar)) \<and>
                summary r = take (Suc p) (replicate 70001 (0x61 :: jschar)))
           \<or> ((\<forall>j. 16800 < j \<and> j < 21000 \<longrightarrow> replicate 70001 (0x61 :: jschar) ! j \<noteq> (0x2E :: jschar)) \<and>
                summary r = take 21000 (replicate 70001 (0x61 :: jschar)) @ js ''...''))"
    by blast
  from ne have l1: "list_ex (\<lambda>(t, n). isl (failingModel t n)) calls"
    by (cases calls) (simp_all add: failingModel_def split: prod.splits)
  note s1 = fall [OF b1(1) ne imp]
  from summarize_failure_falls_back [of failingModel "replicate 21001 (0x61 :: jschar)" None] b2
  obtain r' calls' where
    r': "summarizeChatMessage failingModel (replicate 21001 (0x61 :: jschar)) None = Some (Inr r', calls')"
    and ne': "calls' \<noteq> []"
    and single0: "calls' = [(replicate 21001 (0x61 :: jschar), case None of None \<Rightarrow> 2000 | Some n \<Rightarrow> n)]"
    and imp': "6000 < estimateTokens (replicate 21001 (0x61 :: jschar)) \<and>
          list_ex (\<lambda>(t, n). isl (failingModel t n)) calls' \<longrightarrow>
          originalTokens r' = estimateTokens (replicate 21001 (0x61 :: jschar)) \<and>
          summaryTokens r' = estimateTokens (summary r') \<and>
          ((\<exists>p. 16800 < p \<and> p < 21000 \<and> replicate 21001 (0x61 :: jschar) ! p = (0x2E :: jschar) \<and>
                (\<forall>j. p < j \<and> j < 21000 \<longrightarrow> replicate 21001 (0x61 :: jschar) ! j \<noteq> (0x2E :: jschar)) \<and>
                summary r' = take (Suc p) (replicate 21001 (0x61 :: jschar)))
           \<or> ((\<forall>j. 16800 < j \<and> j < 21000 \<longrightarrow> replicate 21001 (0x61 :: jschar) ! j \<noteq> (0x2E :: jschar)) \<and>
                summary r' = take 21000 (replicate 21001 (0x61 :: jschar)) @ js ''...''))"
    by blast
  note s2 = fall [OF b2(1) ne' imp']
  from single0 have single: "calls' = [(replicate 21001 (0x61 :: jschar), 2000)]" by simp
  have i: "isl (failingModel (replicate 21001 (0x61 :: jschar)) 2000)" by (simp add: failingModel_def)
  from b1 r l1 s1 b2 r' single s2 i show ?thesis by blast
qed

text \<open>
  Claim C8. A message estimated under 6000 tokens is passed through unchanged: the summary is
  the message itself, no request is sent to the model, and \<open>summaryTokens\<close> and
  \<open>originalTokens\<close> both equal \<open>estimateTokens(message)\<close>.
\<close>

theorem short_message_passes_through:
  "estimateTokens message < 6000 \<Longrightarrow>
   summarizeChatMessage model message k =
     Some (Inr \<lparr>summary = message, originalTokens = estimateTokens message,
             summaryTokens = estimateTokens message\<rparr>, [])"
  by (simp add: summarizeChatMessage_def Let_def)

theorem short_message_passes_through_witness:
  "estimateTokens (js ''What did Brett write about stoicism?'') < 6000 \<and>
   summarizeChatMessage (\<lambda>t n. Inl (Error [])) (js ''What did Brett write about stoicism?'') None =
     Some (Inr \<lparr>summary = js ''What did Brett write about stoicism?'',
             originalTokens = estimateTokens (js ''What did Brett write about stoicism?''),
             summaryTokens = estimateTokens (js ''What did Brett write about stoicism?'')\<rparr>, [])"
proof -
  have h: "estimateTokens (js ''What did Brett write about stoicism?'') < 6000"
    by (simp add: estimateTokens_def js_def)
  from h short_message_passes_through [OF h, of "\<lambda>t n. Inl (Error [])" None]
  show ?thesis by (rule conjI)
qed

section \<open>Properties of the embeddings client and of the orchestrator\<close>

text \<open>A slice and what lies behind it make up what lies behind its start.\<close>

lemma jsSlice_then_drop:
  assumes "0 \<le> i" "0 < step"
  shows "jsSlice xs i (i + step) @ drop (nat (i + step)) xs = drop (nat i) xs"
proof -
  let ?s = "min (nat i) (length xs)" and ?e = "min (nat (i + step)) (length xs)"
  from assms have se: "?s \<le> ?e" by (simp add: min_def) linarith
  have sl: "jsSlice xs i (i + step) = take (?e - ?s) (drop ?s xs)"
    using assms by (simp add: jsSlice_def relativeIndex_def Let_def)
  have "take (?e - ?s) (drop ?s xs) @ drop ?e xs = drop ?s xs"
    using se by (metis append_take_drop_id drop_drop le_add_diff_inverse2)
  moreover have "drop ?e xs = drop (nat (i + step)) xs" by (simp add: min_def)
  moreover have "drop ?s xs = drop (nat i) xs" by (simp add: min_def)
  ultimately show ?thesis by (simp add: sl)
qed

lemma batchLoop_returns:
  assumes step: "0 < step"
  shows "0 \<le> i \<Longrightarrow> \<exists>bs. batchLoop xs step i acc = Some (acc @ bs) \<and> concat bs = drop (nat i) xs"
proof (induction "nat (int (length xs) - i)" arbitrary: i acc rule: less_induct)
  case less
  show ?case
  proof (cases "i < int (length xs)")
    case False
    then have "batchLoop xs step i acc = Some (acc @ [])" by (subst batchLoop.simps) simp
    moreover from False less.prems have "drop (nat i) xs = []" by simp
    ultimately show ?thesis by (intro exI [of _ "[]"]) simp
  next
    case True
    with step have m: "nat (int (length xs) - (i + step)) < nat (int (length xs) - i)" by linarith
    from less.prems step have nn: "0 \<le> i + step" by simp
    from less.hyps [OF m nn, of "acc @ [jsSlice xs i (i + step)]"]
    obtain bs where bs: "batchLoop xs step (i + step) (acc @ [jsSlice xs i (i + step)]) =
        Some ((acc @ [jsSlice xs i (i + step)]) @ bs)" "concat bs = drop (nat (i + step)) xs"
      by blast
    from True bs(1) have "batchLoop xs step i acc = Some (acc @ (jsSlice xs i (i + step) # bs))"
      by (subst batchLoop.simps) simp
    moreover have "concat (jsSlice xs i (i + step) # bs) = drop (nat i) xs"
      using jsSlice_then_drop [OF less.prems step, of xs] bs(2) by simp
    ultimately show ?thesis by blast
  qed
qed

lemma promiseAll_Inr_iff: "promiseAll rs = Inr ys \<longleftrightarrow> rs = map Inr ys"
proof (induction rs arbitrary: ys rule: promiseAll.induct)
  case 1
  show ?case by auto
next
  case (2 e rs)
  show ?case by auto
next
  case (3 x rs)
  show ?case
  proof (cases "promiseAll rs")
    case (Inl e)
    with 3 [of "tl ys"] show ?thesis by (cases ys) auto
  next
    case (Inr xs)
    with 3 [of xs] 3 [of "tl ys"] show ?thesis by (cases ys) auto
  qed
qed

lemma promiseAll_map_Inr [simp]: "promiseAll (map Inr ys) = Inr ys"
  by (simp add: promiseAll_Inr_iff)

lemma generateEmbeddingLoop_agrees:
  assumes "agrees create f"
  shows "generateEmbeddingLoop create t r n le = Inr v \<Longrightarrow> v = f t"
proof (induction n arbitrary: le)
  case 0
  then show ?case by simp
next
  case (Suc n)
  show ?case
  proof (cases "create (Single t)")
    case (Inl e)
    with Suc show ?thesis by (auto split: if_splits)
  next
    case (Inr vs)
    with assms have "vs = [] \<or> hd vs = f t" by (simp add: agrees_def)
    with Inr Suc show ?thesis by (cases vs) (auto split: if_splits)
  qed
qed

lemma generateEmbedding_agrees:
  "agrees create f \<Longrightarrow> generateEmbedding create t r = Inr v \<Longrightarrow> v = f t"
  by (auto simp: generateEmbedding_def simp del: generateEmbeddingLoop.simps split: if_splits
      dest: generateEmbeddingLoop_agrees)

lemma tag_zip: "map (\<lambda>((index, t), embedding). (index, embedding)) (zip batch (map (f \<circ> snd) batch)) =
    map (\<lambda>(index, t). (index, f t)) batch"
  by (induction batch) auto

lemma fallback_agrees:
  assumes "agrees create f"
  shows "map (\<lambda>(index, t). case generateEmbedding create t 3 of Inl e \<Rightarrow> Inl e
              | Inr embedding \<Rightarrow> Inr (index, embedding)) batch = map Inr tagged \<Longrightarrow>
         tagged = map (\<lambda>(index, t). (index, f t)) batch"
proof (induction batch arbitrary: tagged)
  case Nil
  then show ?case by simp
next
  case (Cons b batch)
  obtain i t where b: "b = (i, t)" by (cases b)
  from Cons.prems obtain x xs where tg: "tagged = x # xs" by (cases tagged) auto
  with Cons.prems b have hd: "(case generateEmbedding create t 3 of Inl e \<Rightarrow> Inl e
              | Inr embedding \<Rightarrow> Inr (i, embedding)) = Inr x"
    and tl: "map (\<lambda>(index, t). case generateEmbedding create t 3 of Inl e \<Rightarrow> Inl e
              | Inr embedding \<Rightarrow> Inr (index, embedding)) batch = map Inr xs"
    by simp_all
  from hd obtain v where "generateEmbedding create t 3 = Inr v" "x = (i, v)"
    by (auto split: sum.splits)
  with generateEmbedding_agrees [OF assms] have "x = (i, f t)" by blast
  with Cons.IH [OF tl] tg b show ?case by simp
qed

lemma processBatch_agrees:
  assumes "agrees create f"
  shows "processBatch create batch = Inr tagged \<Longrightarrow> tagged = map (\<lambda>(index, t). (index, f t)) batch"
proof -
  assume pb: "processBatch create batch = Inr tagged"
  show ?thesis
  proof (cases "create (Batch (map snd batch))")
    case (Inl e)
    with pb have "map (\<lambda>(index, t). case generateEmbedding create t 3 of Inl e \<Rightarrow> Inl e
              | Inr embedding \<Rightarrow> Inr (index, embedding)) batch = map Inr tagged"
      by (simp add: processBatch_def promiseAll_Inr_iff)
    then show ?thesis by (rule fallback_agrees [OF assms])
  next
    case (Inr data)
    with assms have data: "data = map f (map snd batch)" unfolding agrees_def by blast
    have "processBatch create batch = Inr (map (\<lambda>(index, t). (index, f t)) batch)"
      unfolding processBatch_def Inr data by (simp add: tag_zip)
    with pb show ?thesis by simp
  qed
qed

lemma group_agrees:
  assumes "agrees create f"
  shows "map (processBatch create) grp = map Inr results \<Longrightarrow>
         concat results = map (\<lambda>(index, t). (index, f t)) (concat grp)"
proof (induction grp arbitrary: results)
  case Nil
  then show ?case by simp
next
  case (Cons b grp)
  from Cons.prems obtain x xs where r: "results = x # xs" by (cases results) auto
  with Cons.prems have "processBatch create b = Inr x" "map (processBatch create) grp = map Inr xs"
    by simp_all
  with processBatch_agrees [OF assms] Cons.IH r show ?case by simp
qed

lemma processBatch_exact:
  assumes "\<forall>ts. create (Batch ts) = Inr (map f ts)"
  shows "processBatch create batch = Inr (map (\<lambda>(index, t). (index, f t)) batch)"
  unfolding processBatch_def using assms by (simp add: tag_zip)

lemma group_exact:
  assumes "\<forall>ts. create (Batch ts) = Inr (map f ts)"
  shows "\<exists>results. promiseAll (map (processBatch create) grp) = Inr results"
proof -
  have "map (processBatch create) grp = map Inr (map (map (\<lambda>(index, t). (index, f t))) grp)"
    by (simp add: processBatch_exact [OF assms])
  then show ?thesis by (simp only: promiseAll_map_Inr) blast
qed

lemma groupLoop_agrees:
  assumes ag: "agrees create f" and conc: "0 < conc"
  shows "0 \<le> i \<Longrightarrow> \<exists>r. groupLoop create batches conc n i acc done prog = Some r \<and>
           (\<forall>acc' prog'. r = Inr (acc', prog') \<longrightarrow>
              acc' = acc @ map (\<lambda>(index, t). (index, f t)) (concat (drop (nat i) batches))) \<and>
           ((\<forall>ts. create (Batch ts) = Inr (map f ts)) \<longrightarrow> (\<exists>acc' prog'. r = Inr (acc', prog')))"
proof (induction "nat (int (length batches) - i)" arbitrary: i acc "done" prog rule: less_induct)
  case less
  show ?case
  proof (cases "i < int (length batches)")
    case False
    then have "groupLoop create batches conc n i acc done prog = Some (Inr (acc, prog))"
      by (subst groupLoop.simps) simp
    moreover from False less.prems have "drop (nat i) batches = []" by simp
    ultimately show ?thesis by simp
  next
    case True
    let ?grp = "jsSlice batches i (i + conc)"
    show ?thesis
    proof (cases "promiseAll (map (processBatch create) ?grp)")
      case (Inl e)
      with True have "groupLoop create batches conc n i acc done prog = Some (Inl e)"
        by (subst groupLoop.simps) (simp add: Let_def)
      moreover have "\<not> (\<forall>ts. create (Batch ts) = Inr (map f ts))"
        using group_exact [of create f ?grp] Inl by auto
      ultimately show ?thesis by simp
    next
      case (Inr results)
      then have "map (processBatch create) ?grp = map Inr results" by (simp add: promiseAll_Inr_iff)
      from group_agrees [OF ag this]
      have cr: "concat results = map (\<lambda>(index, t). (index, f t)) (concat ?grp)" .
      from True conc have m: "nat (int (length batches) - (i + conc)) < nat (int (length batches) - i)"
        by linarith
      from less.prems conc have nn: "0 \<le> i + conc" by simp
      let ?done = "done + sum_list (map length ?grp)"
      from less.hyps [OF m nn, of "acc @ concat results" ?done "prog @ [(?done, n)]"]
      obtain r where r: "groupLoop create batches conc n (i + conc) (acc @ concat results) ?done
            (prog @ [(?done, n)]) = Some r"
        and rr: "\<forall>acc' prog'. r = Inr (acc', prog') \<longrightarrow>
              acc' = (acc @ concat results) @
                map (\<lambda>(index, t). (index, f t)) (concat (drop (nat (i + conc)) batches))"
        and re: "(\<forall>ts. create (Batch ts) = Inr (map f ts)) \<longrightarrow> (\<exists>acc' prog'. r = Inr (acc', prog'))"
        by blast
      from True Inr r have "groupLoop create batches conc n i acc done prog = Some r"
        by (subst groupLoop.simps) (simp add: Let_def)
      moreover have "concat ?grp @ concat (drop (nat (i + conc)) batches) = concat (drop (nat i) batches)"
        using jsSlice_then_drop [OF less.prems conc, of batches] by (metis concat_append)
      then have "(acc @ concat results) @
                map (\<lambda>(index, t). (index, f t)) (concat (drop (nat (i + conc)) batches)) =
            acc @ map (\<lambda>(index, t). (index, f t)) (concat (drop (nat i) batches))"
        by (simp add: cr flip: map_append)
      ultimately show ?thesis using rr re by simp
    qed
  qed
qed

lemma validTexts_sorted: "sorted (map fst (validTexts texts))"
  unfolding validTexts_def by (rule sorted_filter) simp

lemma validTexts_distinct: "distinct (map fst (validTexts texts))"
  unfolding validTexts_def by (rule distinct_map_filter) simp

lemma validTexts_texts: "map snd (validTexts texts) = filter (\<lambda>t. \<not> isBlank t) texts"
proof -
  have "map snd (filter ((\<lambda>t. \<not> isBlank t) \<circ> snd) (enumerate 0 texts)) =
      filter (\<lambda>t. \<not> isBlank t) (map snd (enumerate 0 texts))"
    by (simp only: filter_map)
  moreover have "((\<lambda>t. \<not> isBlank t) \<circ> snd) = (\<lambda>(index :: nat, t). \<not> isBlank t)" by auto
  ultimately show ?thesis by (simp add: validTexts_def)
qed

lemma tagged_fst: "map fst (map (\<lambda>(index, t). (index, f t)) xs) = map fst xs"
  by (induction xs) auto

lemma tagged_snd: "map snd (map (\<lambda>(index, t). (index, f t)) xs) = map f (map snd xs)"
  by (induction xs) auto

lemma sortByIndex_tagged:
  "sortByIndex (map (\<lambda>(index, t). (index, f t)) (validTexts texts)) =
     map f (filter (\<lambda>t. \<not> isBlank t) texts)"
proof -
  let ?tg = "map (\<lambda>(index, t). (index, f t)) (validTexts texts)"
  have "sorted (map fst ?tg)" by (simp only: tagged_fst validTexts_sorted)
  then have "sort_key fst ?tg = ?tg" by (rule sort_key_id_if_sorted)
  then show ?thesis by (simp only: sortByIndex_def tagged_snd validTexts_texts)
qed

lemma filter_same_key:
  "distinct (map f xs) \<Longrightarrow> k \<in> set xs \<Longrightarrow> filter (\<lambda>x. f k = f x) xs = [k]"
proof (induction xs)
  case Nil
  then show ?case by simp
next
  case (Cons x xs)
  show ?case
  proof (cases "k = x")
    case True
    with Cons.prems have "filter (\<lambda>y. f k = f y) xs = []"
      by (auto simp: filter_empty_conv)
    with True show ?thesis by simp
  next
    case False
    with Cons.prems have kx: "k \<in> set xs" and d: "distinct (map f xs)" and nx: "f x \<notin> f ` set xs"
      by auto
    from kx have "f k \<in> f ` set xs" by (rule imageI)
    with nx have "f k \<noteq> f x" by metis
    with Cons.IH [OF d kx] show ?thesis by simp
  qed
qed

text \<open>Any arrival order of index-tagged results sorts to the same list.\<close>

lemma sort_key_permutation:
  assumes d: "distinct (map f ys)" and m: "mset xs = mset ys"
  shows "sort_key f xs = sort_key f ys"
proof (rule properties_for_sort_key)
  show "mset (sort_key f ys) = mset xs" using m by simp
  show "sorted (map f (sort_key f ys))" by simp
  fix k assume "k \<in> set (sort_key f ys)"
  then have k: "k \<in> set ys" by simp
  from m have "mset (map f xs) = mset (map f ys)" by simp
  with d have dx: "distinct (map f xs)" by (metis mset_eq_imp_distinct_iff)
  from m k have kx: "k \<in> set xs" by (metis mset_eq_setD)
  have "distinct (map f (sort_key f ys))" using d by (simp add: distinct_map)
  moreover have "k \<in> set (sort_key f ys)" using k by simp
  ultimately have "filter (\<lambda>x. f k = f x) (sort_key f ys) = [k]" by (rule filter_same_key)
  moreover from dx kx have "filter (\<lambda>x. f k = f x) xs = [k]" by (rule filter_same_key)
  ultimately show "filter (\<lambda>x. f k = f x) (sort_key f ys) = filter (\<lambda>x. f k = f x) xs" by simp
qed

lemma batchTagged_agrees:
  assumes ag: "agrees create f" and bs: "0 < optBatchSize options" and conc: "0 < optConcurrency options"
  shows "\<exists>r. batchTagged create texts options = Some r \<and>
           (\<forall>acc prog. r = Inr (acc, prog) \<longrightarrow>
              acc = map (\<lambda>(index, t). (index, f t)) (validTexts texts)) \<and>
           ((\<forall>ts. create (Batch ts) = Inr (map f ts)) \<longrightarrow> (\<exists>acc prog. r = Inr (acc, prog)))"
proof (cases "length texts = 0")
  case True
  then show ?thesis by (simp add: batchTagged_def validTexts_def)
next
  case False
  from batchLoop_returns [OF bs, of 0 "validTexts texts" "[]"]
  obtain batches where b: "batchLoop (validTexts texts) (optBatchSize options) 0 [] = Some batches"
    "concat batches = validTexts texts" by auto
  from groupLoop_agrees [OF ag conc, of 0 batches "length (validTexts texts)" "[]" 0 "[]"]
  obtain r where "groupLoop create batches (optConcurrency options) (length (validTexts texts)) 0 [] 0 [] = Some r"
    "\<forall>acc prog. r = Inr (acc, prog) \<longrightarrow> acc = map (\<lambda>(index, t). (index, f t)) (concat batches)"
    "(\<forall>ts. create (Batch ts) = Inr (map f ts)) \<longrightarrow> (\<exists>acc prog. r = Inr (acc, prog))"
    by auto
  with False b show ?thesis by (simp add: batchTagged_def Let_def)
qed

text \<open>
  Claim C4. With a provider that agrees with a function \<open>f\<close> from texts to vectors (and
  positive batch size and concurrency, as the defaults are), \<open>batchGenerateEmbeddings\<close>
  returns, and the embeddings it returns are \<open>f\<close> mapped over the non-blank input texts
  in their input order, blank texts being absent. When the provider is \<open>f\<close> on every
  batch, this is what it returns. The order does not depend on which call completes first:
  sorting by index any arrival order of the tagged results gives the same list.
\<close>

theorem batch_embeddings_keep_input_order:
  assumes ag: "agrees create f" and bs: "0 < optBatchSize options" and conc: "0 < optConcurrency options"
  shows "\<exists>r. batchGenerateEmbeddings create texts options = Some r \<and>
           (\<forall>out prog. r = Inr (out, prog) \<longrightarrow> out = map f (filter (\<lambda>t. \<not> isBlank t) texts)) \<and>
           ((\<forall>ts. create (Batch ts) = Inr (map f ts)) \<longrightarrow>
              (\<exists>prog. r = Inr (map f (filter (\<lambda>t. \<not> isBlank t) texts), prog))) \<and>
           (\<forall>arrived acc prog. batchTagged create texts options = Some (Inr (acc, prog)) \<and>
              mset arrived = mset acc \<longrightarrow>
              sortByIndex arrived = map f (filter (\<lambda>t. \<not> isBlank t) texts))"
proof -
  let ?tg = "map (\<lambda>(index, t). (index, f t)) (validTexts texts)"
  let ?out = "map f (filter (\<lambda>t. \<not> isBlank t) texts)"
  from batchTagged_agrees [OF ag bs conc, of texts]
  obtain t where t: "batchTagged create texts options = Some t"
    and tr: "\<forall>acc prog. t = Inr (acc, prog) \<longrightarrow> acc = ?tg"
    and te: "(\<forall>ts. create (Batch ts) = Inr (map f ts)) \<longrightarrow> (\<exists>acc prog. t = Inr (acc, prog))"
    by blast
  have perm: "sortByIndex arrived = ?out" if "mset arrived = mset ?tg" for arrived
  proof -
    have "distinct (map fst ?tg)" by (simp only: tagged_fst validTexts_distinct)
    from sort_key_permutation [OF this that] have "sortByIndex arrived = sortByIndex ?tg"
      by (simp add: sortByIndex_def)
    then show ?thesis by (simp only: sortByIndex_tagged)
  qed
  show ?thesis
  proof (cases t)
    case (Inl e)
    with t te show ?thesis by (auto simp: batchGenerateEmbeddings_def)
  next
    case (Inr p)
    obtain acc prog where p: "p = (acc, prog)" by (cases p)
    with Inr tr have acc: "acc = ?tg" by simp
    have "batchGenerateEmbeddings create texts options = Some (Inr (?out, prog))"
      using t Inr p acc by (simp add: batchGenerateEmbeddings_def sortByIndex_tagged)
    moreover have "sortByIndex arrived = ?out"
      if "batchTagged create texts options = Some (Inr (acc', prog'))" "mset arrived = mset acc'"
      for arrived acc' prog'
      using that t Inr p acc perm by simp
    ultimately show ?thesis by auto
  qed
qed

theorem batch_embeddings_keep_input_order_witness:
  "agrees lengthProvider length \<and>
   0 < optBatchSize \<lparr>batchSize = Some 2, concurrency = Some 5\<rparr> \<and>
   0 < optConcurrency \<lparr>batchSize = Some 2, concurrency = Some 5\<rparr> \<and>
   (\<exists>prog. batchGenerateEmbeddings lengthProvider [js ''a'', js '' '', js ''bcd'', [], js ''ef'']
        \<lparr>batchSize = Some 2, concurrency = Some 5\<rparr> = Some (Inr ([1, 3, 2], prog)))"
proof -
  let ?o = "\<lparr>batchSize = Some 2, concurrency = Some 5\<rparr>"
  let ?texts = "[js ''a'', js '' '', js ''bcd'', [], js ''ef'']"
  have h1: "agrees lengthProvider length" by (simp add: agrees_def lengthProvider_def)
  have h2: "0 < optBatchSize ?o" by (simp add: optBatchSize_def)
  have h3: "0 < optConcurrency ?o" by (simp add: optConcurrency_def)
  have ex: "\<forall>ts. lengthProvider (Batch ts) = Inr (map length ts)" by (simp add: lengthProvider_def)
  have out: "map length (filter (\<lambda>t. \<not> isBlank t) ?texts) = [1, 3, 2]" by code_simp
  from batch_embeddings_keep_input_order [OF h1 h2 h3, of ?texts] ex
  obtain prog where "batchGenerateEmbeddings lengthProvider ?texts ?o =
      Some (Inr (map length (filter (\<lambda>t. \<not> isBlank t) ?texts), prog))" by blast
  with out have "\<exists>prog. batchGenerateEmbeddings lengthProvider ?texts ?o = Some (Inr ([1, 3, 2], prog))"
    by auto
  with h1 h2 h3 show ?thesis by (intro conjI)
qed

text \<open>
  Claim C1. When the query is embedded and the retrieval returns zero matches, both
  \<open>queryKnowledgeBase\<close> and \<open>queryKnowledgeBaseStream\<close> send no request to the
  generative model and return their fixed no-relevant-information answer with an empty list
  of citations; the non-streaming variant reports \<open>retrievedChunks = 0\<close>.
\<close>

theorem empty_retrieval_short_circuit:
  "embedQuery (embeddingsCreate sv) query = Inr v \<and> queryVectors sv v (optTopK options) = Inr [] \<longrightarrow>
     queryKnowledgeBase sv query options =
       (Inr \<lparr>answer = js ''I couldn't find any relevant information in the archive for your question. Could you try rephrasing or asking about a different topic?'',
             citations = [], retrievedChunks = 0, rr_model = js ''gpt-4o''\<rparr>, []) \<and>
     queryKnowledgeBaseStream sv query options =
       (Inr \<lparr>sr_stream = ([js ''I couldn't find any relevant information in the archive for your question.''], Closed),
             sr_citations = []\<rparr>, [])"
  by (simp add: queryKnowledgeBase_def queryKnowledgeBaseStream_def)

text \<open>The retrieval returns zero matches when the index answers without matches.\<close>

lemma queryVectors_no_matches:
  "indexQuery sv v k = Inr None \<or> indexQuery sv v k = Inr (Some []) \<Longrightarrow> queryVectors sv v k = Inr []"
  by (auto simp: queryVectors_def)

theorem empty_retrieval_short_circuit_witness:
  "embedQuery (embeddingsCreate quietServices) (js ''How do I shave?'') = Inr [1, 2, 3] \<and>
   queryVectors quietServices [1, 2, 3]
     (optTopK (\<lparr>topK = None, temperature = None, ragMaxTokens = None, conversationHistory = None\<rparr>
        :: nat RAGOptions)) = Inr [] \<and>
   queryKnowledgeBase quietServices (js ''How do I shave?'')
       \<lparr>topK = None, temperature = None, ragMaxTokens = None, conversationHistory = None\<rparr> =
       (Inr \<lparr>answer = js ''I couldn't find any relevant information in the archive for your question. Could you try rephrasing or asking about a different topic?'',
             citations = [], retrievedChunks = 0, rr_model = js ''gpt-4o''\<rparr>, []) \<and>
   queryKnowledgeBaseStream quietServices (js ''How do I shave?'')
       \<lparr>topK = None, temperature = None, ragMaxTokens = None, conversationHistory = None\<rparr> =
       (Inr \<lparr>sr_stream = ([js ''I couldn't find any relevant information in the archive for your question.''], Closed),
             sr_citations = []\<rparr>, [])"
proof -
  let ?o = "\<lparr>topK = None, temperature = None, ragMaxTokens = None, conversationHistory = None\<rparr> :: nat RAGOptions"
  have h1: "embedQuery (embeddingsCreate quietServices) (js ''How do I shave?'') = Inr [1, 2, 3]"
    by code_simp
  have h2: "queryVectors quietServices [1, 2, 3] (optTopK ?o) = Inr []"
    by (simp add: queryVectors_def quietServices_def)
  note c = empty_retrieval_short_circuit [of quietServices "js ''How do I shave?''" "[1, 2, 3]" ?o,
      THEN mp, OF conjI [OF h1 h2]]
  from h1 h2 c [THEN conjunct1] c [THEN conjunct2] show ?thesis by (intro conjI)
qed

section \<open>Properties of the text normalizer\<close>

lemma cleanHTML_hello_world:
  "cleanHTML (js ''<p>Hello&nbsp;<b>World</b>!</p>'') = js ''Hello World !''"
  by code_simp

text \<open>
  Claim C7, as amended. On the input \<open><p>Hello&nbsp;<b>World</b>!</p>\<close> the normalizer
  returns exactly \<open>Hello World !\<close>: every tag is replaced by a space (so a space stands
  between \<open>World\<close> and the exclamation mark), the entity \<open>&nbsp;\<close> is decoded to a
  space, and the runs of white space are collapsed to single spaces and trimmed at both ends.
\<close>

theorem cleanHTML_example_output:
  "cleanHTML (js ''<p>Hello&nbsp;<b>World</b>!</p>'') = js ''Hello World !'' \<and>
   replaceAll matchTag (\<lambda>m. js '' '') (js ''<p>Hello&nbsp;<b>World</b>!</p>'') =
     js '' Hello&nbsp; World ! ''"
  by code_simp

text \<open>The output is not \<open>Hello World!\<close>.\<close>

theorem cleanHTML_example_counterexample:
  "cleanHTML (js ''<p>Hello&nbsp;<b>World</b>!</p>'') \<noteq> js ''Hello World!''"
  using cleanHTML_hello_world by (simp add: js_def)

end
